theory Spec2Isabelle
  imports Complex_Main
begin

section \<open>The N-Queens constraint model of \<open>8queens_cqm.py\<close>\<close>

text \<open>
  The script builds a constrained model over \<open>N * N\<close> binary variables, hands it to an
  external hybrid sampler and prints up to ten of the returned assignments as boards.
  The script is one module-level sequence of statements; each of its variables
  (\<open>vlabels\<close>, \<open>vnum\<close>, \<open>rvnum\<close>, \<open>variables\<close>, \<open>board\<close>, \<open>diags\<close>, \<open>cqm\<close>,
  \<open>best_samples\<close>) is a definition below, as a function of the run parameters \<open>N\<close>
  (board side, a natural number) and \<open>NQ\<close> (number of queens, a Python int).
  Every place where the Python can raise is a branch returning \<open>Inl\<close>.
\<close>

subsection \<open>Python values and failures\<close>

datatype error = IndexError | KeyError | ValueError | SolverError

text \<open>\<open>xs[i]\<close> for a non-negative index: \<open>IndexError\<close> out of range.\<close>

definition getitem :: "'a list \<Rightarrow> nat \<Rightarrow> error + 'a" where
  "getitem xs i = (if i < length xs then Inr (xs ! i) else Inl IndexError)"

text \<open>\<open>d[k]\<close> for a dict: \<open>KeyError\<close> for a missing key.\<close>

definition lookup :: "('k \<rightharpoonup> 'v) \<Rightarrow> 'k \<Rightarrow> error + 'v" where
  "lookup d k = (case d k of None \<Rightarrow> Inl KeyError | Some v \<Rightarrow> Inr v)"

text \<open>A comprehension or generator whose element expression can raise: the first
  failure ends it.\<close>

primrec mapM :: "('a \<Rightarrow> error + 'b) \<Rightarrow> 'a list \<Rightarrow> error + 'b list" where
  "mapM f [] = Inr []"
| "mapM f (x # xs) =
     (case f x of
        Inl e \<Rightarrow> Inl e
      | Inr y \<Rightarrow> (case mapM f xs of Inl e \<Rightarrow> Inl e | Inr ys \<Rightarrow> Inr (y # ys)))"

text \<open>A \<open>for\<close> loop that updates a state and whose body can raise.\<close>

primrec foldM :: "('s \<Rightarrow> 'a \<Rightarrow> error + 's) \<Rightarrow> 'a list \<Rightarrow> 's \<Rightarrow> error + 's" where
  "foldM f [] s = Inr s"
| "foldM f (x # xs) s = (case f s x of Inl e \<Rightarrow> Inl e | Inr s' \<Rightarrow> foldM f xs s')"

text \<open>\<open>range(a, b)\<close> over Python ints.\<close>

definition py_range :: "int \<Rightarrow> int \<Rightarrow> int list" where
  "py_range a b = [a..b - 1]"

text \<open>\<open>str(n)\<close> for a non-negative int: its decimal digits, most significant first.\<close>

definition digit :: "nat \<Rightarrow> char" where
  "digit d = ''0123456789'' ! d"

fun str :: "nat \<Rightarrow> string" where
  "str n = (if n < 10 then [digit n] else str (n div 10) @ [digit (n mod 10)])"

declare str.simps [simp del]

subsection \<open>Variable names, numberings and the board (lines 84 to 96)\<close>

definition varname :: "nat \<Rightarrow> nat \<Rightarrow> string" where
  "varname r c = ''square_r'' @ str r @ ''_c'' @ str c"

definition vlabels :: "nat \<Rightarrow> string list" where
  "vlabels N = [varname r c. r \<leftarrow> [0..<N], c \<leftarrow> [0..<N]]"

definition vnum :: "nat \<Rightarrow> nat list list" where
  "vnum N = [[r * N + c. c \<leftarrow> [0..<N]]. r \<leftarrow> [0..<N]]"

text \<open>\<open>vnum[:, ::-1]\<close>: every row reversed.\<close>

definition rvnum :: "nat \<Rightarrow> nat list list" where
  "rvnum N = map rev (vnum N)"

text \<open>\<open>dimod.Binary(label)\<close>: a binary variable, identified by its label.\<close>

datatype bvar = Binary (vlabel: string)

definition variables :: "nat \<Rightarrow> bvar list" where
  "variables N = [Binary (varname r c). r \<leftarrow> [0..<N], c \<leftarrow> [0..<N]]"

text \<open>The dict comprehension of line 96: the keys are visited column by column, a later
  key would replace an earlier equal one, and \<open>variables[r*N+c]\<close> is a checked read.\<close>

definition dict_of :: "('k \<times> 'v) list \<Rightarrow> ('k \<rightharpoonup> 'v)" where
  "dict_of kvs = foldl (\<lambda>m (k, v). m(k \<mapsto> v)) Map.empty kvs"

definition board :: "nat \<Rightarrow> error + (nat \<times> nat \<rightharpoonup> bvar)" where
  "board N =
     (case mapM (\<lambda>(c, r). case getitem (variables N) (r * N + c) of
                             Inl e \<Rightarrow> Inl e
                           | Inr v \<Rightarrow> Inr ((r, c), v))
                [(c, r). c \<leftarrow> [0..<N], r \<leftarrow> [0..<N]] of
        Inl e \<Rightarrow> Inl e
      | Inr kvs \<Rightarrow> Inr (dict_of kvs))"

subsection \<open>The diagonal enumerator (lines 100 to 103)\<close>

text \<open>
  \<open>np.diag(a, k)\<close> of a two-dimensional array with \<open>n\<close> rows and \<open>m\<close> columns: the
  entries \<open>a[i, i + k]\<close> for \<open>k \<ge> 0\<close> and \<open>a[i - k, i]\<close> for \<open>k < 0\<close>, as long as both
  indices are inside the array; empty when the offset leaves the array.
\<close>

definition np_diag :: "'a list list \<Rightarrow> int \<Rightarrow> 'a list" where
  "np_diag a k =
     (let n = int (length a);
          m = (case a of [] \<Rightarrow> 0 | row # _ \<Rightarrow> int (length row))
      in if 0 \<le> k
         then map (\<lambda>i. a ! i ! (i + nat k)) [0..<nat (min n (m - k))]
         else map (\<lambda>i. a ! (i + nat (- k)) ! i) [0..<nat (min (n + k) m)])"

definition diags :: "nat \<Rightarrow> nat list list" where
  "diags N = [np_diag a k. a \<leftarrow> [vnum N, rvnum N],
                           k \<leftarrow> py_range (- (int N - 2)) (int N - 1)]"

subsection \<open>The constrained model (lines 80 and 120 to 139)\<close>

text \<open>
  The objects of the external library, as far as the script uses them. A sum of binary
  variables is the list of their labels in the order of summation; Python's \<open>sum\<close> of no
  terms is the int \<open>0\<close>. Comparing an expression with an int gives a comparison object,
  comparing two ints gives a bool. \<open>add_constraint\<close> accepts a comparison object under a
  label the model does not have yet and raises \<open>ValueError\<close> otherwise. The model starts
  with no constraint and the empty objective, and the script never sets an objective.
\<close>

datatype expr = Num int | Lin "string list"

definition py_sum :: "bvar list \<Rightarrow> expr" where
  "py_sum vs = (case vs of [] \<Rightarrow> Num 0 | _ # _ \<Rightarrow> Lin (map vlabel vs))"

datatype sense = Eq | Le

datatype comparison = PyBool bool | Cmp "string list" sense int

definition cmp_eq :: "expr \<Rightarrow> int \<Rightarrow> comparison" where
  "cmp_eq e b = (case e of Num k \<Rightarrow> PyBool (k = b) | Lin xs \<Rightarrow> Cmp xs Eq b)"

definition cmp_le :: "expr \<Rightarrow> int \<Rightarrow> comparison" where
  "cmp_le e b = (case e of Num k \<Rightarrow> PyBool (k \<le> b) | Lin xs \<Rightarrow> Cmp xs Le b)"

record constraint =
  label :: string
  lhs :: "string list"
  sense :: sense
  rhs :: int

record cqm =
  objective :: "string list"
  constraints :: "constraint list"

definition CQM :: cqm where
  "CQM = \<lparr>objective = [], constraints = []\<rparr>"

definition add_constraint :: "cqm \<Rightarrow> comparison \<Rightarrow> string \<Rightarrow> error + cqm" where
  "add_constraint m cmp lbl =
     (case cmp of
        PyBool _ \<Rightarrow> Inl ValueError
      | Cmp xs s b \<Rightarrow>
          if lbl \<in> set (map label (constraints m)) then Inl ValueError
          else Inr (m\<lparr>constraints := constraints m @
                        [\<lparr>label = lbl, lhs = xs, sense = s, rhs = b\<rparr>]\<rparr>))"

definition col_label :: "nat \<Rightarrow> string" where
  "col_label c = ''col_'' @ str c @ ''_total''"

definition row_label :: "nat \<Rightarrow> string" where
  "row_label r = ''row_'' @ str r @ ''_total''"

definition diag_label :: "nat \<Rightarrow> string" where
  "diag_label i = ''diag_'' @ str i @ ''_total''"

text \<open>Line 124.\<close>

definition add_board_total :: "nat \<Rightarrow> int \<Rightarrow> (nat \<times> nat \<rightharpoonup> bvar) \<Rightarrow> cqm \<Rightarrow> error + cqm" where
  "add_board_total N NQ b m =
     (case mapM (lookup b) [(r, c). r \<leftarrow> [0..<N], c \<leftarrow> [0..<N]] of
        Inl e \<Rightarrow> Inl e
      | Inr vs \<Rightarrow> add_constraint m (cmp_eq (py_sum vs) NQ) ''board_total'')"

text \<open>Lines 128 and 129: the body of the loop over the columns.\<close>

definition add_col :: "nat \<Rightarrow> (nat \<times> nat \<rightharpoonup> bvar) \<Rightarrow> cqm \<Rightarrow> nat \<Rightarrow> error + cqm" where
  "add_col N b m c =
     (case mapM (lookup b) [(r, c). r \<leftarrow> [0..<N]] of
        Inl e \<Rightarrow> Inl e
      | Inr vs \<Rightarrow> add_constraint m (cmp_le (py_sum vs) 1) (col_label c))"

text \<open>Lines 133 and 134: the body of the loop over the rows.\<close>

definition add_row :: "nat \<Rightarrow> (nat \<times> nat \<rightharpoonup> bvar) \<Rightarrow> cqm \<Rightarrow> nat \<Rightarrow> error + cqm" where
  "add_row N b m r =
     (case mapM (lookup b) [(r, c). c \<leftarrow> [0..<N]] of
        Inl e \<Rightarrow> Inl e
      | Inr vs \<Rightarrow> add_constraint m (cmp_le (py_sum vs) 1) (row_label r))"

text \<open>Lines 138 and 139: the body of the loop over \<open>enumerate(diags)\<close>.\<close>

definition add_diag :: "nat \<Rightarrow> cqm \<Rightarrow> nat \<times> nat list \<Rightarrow> error + cqm" where
  "add_diag N m ix =
     (case ix of (i, d) \<Rightarrow>
        (case mapM (getitem (variables N)) d of
           Inl e \<Rightarrow> Inl e
         | Inr vs \<Rightarrow> add_constraint m (cmp_le (py_sum vs) 1) (diag_label i)))"

text \<open>
  The model after line 139. For \<open>N = 0\<close> the array \<open>vnum\<close> is one-dimensional and empty,
  and the two-dimensional slice of line 91 raises \<open>IndexError\<close> before any constraint
  is added.
\<close>

definition build_cqm :: "nat \<Rightarrow> int \<Rightarrow> error + cqm" where
  "build_cqm N NQ =
     (if N = 0 then Inl IndexError
      else case board N of
        Inl e \<Rightarrow> Inl e
      | Inr b \<Rightarrow>
          (case add_board_total N NQ b CQM of
             Inl e \<Rightarrow> Inl e
           | Inr m1 \<Rightarrow>
               (case foldM (add_col N b) [0..<N] m1 of
                  Inl e \<Rightarrow> Inl e
                | Inr m2 \<Rightarrow>
                    (case foldM (add_row N b) [0..<N] m2 of
                       Inl e \<Rightarrow> Inl e
                     | Inr m3 \<Rightarrow> foldM (add_diag N) (enumerate 0 (diags N)) m3))))"

subsection \<open>Calling the sampler and printing the result (lines 142 to 171)\<close>




abbreviation NL :: char where
  "NL \<equiv> CHR 0x0A"

text \<open>\<open>print(x)\<close> appends \<open>x\<close> and a newline to the standard output.\<close>

definition print :: "string \<Rightarrow> string \<Rightarrow> string" where
  "print out x = out @ x @ [NL]"

text \<open>Lines 166 to 169: one square, printed without a newline.\<close>

definition print_square :: "(string \<rightharpoonup> real) \<Rightarrow> nat \<Rightarrow> string \<Rightarrow> nat \<Rightarrow> error + string" where
  "print_square s r out c =
     (case lookup s (varname r c) of
        Inl e \<Rightarrow> Inl e
      | Inr v \<Rightarrow>
          (let q = (if v > 0.0 then ''W'' else ''.'')
           in Inr (out @ ''|.'' @ q @ ''.'')))"

text \<open>Lines 165 to 170: one row of the board.\<close>

definition print_row :: "nat \<Rightarrow> (string \<rightharpoonup> real) \<Rightarrow> string \<Rightarrow> nat \<Rightarrow> error + string" where
  "print_row N s out r =
     (case foldM (print_square s r) [0..<N] out of
        Inl e \<Rightarrow> Inl e
      | Inr out' \<Rightarrow> Inr (print out' ''|''))"

text \<open>Lines 163 to 171: the body of the loop over \<open>enumerate(best_samples)\<close>.\<close>

definition print_result :: "nat \<Rightarrow> string \<Rightarrow> nat \<times> (string \<rightharpoonup> real) \<Rightarrow> error + string" where
  "print_result N out ix =
     (case ix of (i, s) \<Rightarrow>
        (case foldM (print_row N s) [0..<N]
                (print out (''Result '' @ str (i + 1) @ ''    ====================='')) of
           Inl e \<Rightarrow> Inl e
         | Inr out' \<Rightarrow> Inr (print out' ''================================='')))"







subsection \<open>What a model means, and the shapes the claims speak of\<close>

text \<open>
  An assignment gives every variable of the board the value 0 or 1. The left-hand side
  of a constraint is the sum of the values of its variables; a model is satisfied
  when every constraint holds.
\<close>

definition value_of :: "(string \<rightharpoonup> real) \<Rightarrow> string \<Rightarrow> real" where
  "value_of s x = (case s x of None \<Rightarrow> 0 | Some v \<Rightarrow> v)"

definition lhs_value :: "(string \<rightharpoonup> real) \<Rightarrow> string list \<Rightarrow> real" where
  "lhs_value s xs = sum_list (map (value_of s) xs)"

definition holds :: "(string \<rightharpoonup> real) \<Rightarrow> constraint \<Rightarrow> bool" where
  "holds s c =
     (case sense c of
        Eq \<Rightarrow> lhs_value s (lhs c) = of_int (rhs c)
      | Le \<Rightarrow> lhs_value s (lhs c) \<le> of_int (rhs c))"

definition satisfies :: "cqm \<Rightarrow> (string \<rightharpoonup> real) \<Rightarrow> bool" where
  "satisfies m s = list_all (holds s) (constraints m)"

definition binary_assignment :: "nat \<Rightarrow> (string \<rightharpoonup> real) \<Rightarrow> bool" where
  "binary_assignment N s =
     (dom s = set (vlabels N) \<and> list_all (\<lambda>x. s x = Some 0 \<or> s x = Some 1) (vlabels N))"

text \<open>A sample is full when it has a value for every square of the board.\<close>

definition full_sample :: "nat \<Rightarrow> (string \<rightharpoonup> real) \<Rightarrow> bool" where
  "full_sample N s = list_all (\<lambda>x. s x \<noteq> None) (vlabels N)"

text \<open>The four families of constraints, as the specification describes them.\<close>

definition total_constraint :: "nat \<Rightarrow> int \<Rightarrow> constraint" where
  "total_constraint N NQ =
     \<lparr>label = ''board_total'', lhs = [varname r c. r \<leftarrow> [0..<N], c \<leftarrow> [0..<N]],
      sense = Eq, rhs = NQ\<rparr>"

definition col_constraint :: "nat \<Rightarrow> nat \<Rightarrow> constraint" where
  "col_constraint N c =
     \<lparr>label = ''col_'' @ str c @ ''_total'', lhs = [varname r c. r \<leftarrow> [0..<N]],
      sense = Le, rhs = 1\<rparr>"

definition row_constraint :: "nat \<Rightarrow> nat \<Rightarrow> constraint" where
  "row_constraint N r =
     \<lparr>label = ''row_'' @ str r @ ''_total'', lhs = [varname r c. c \<leftarrow> [0..<N]],
      sense = Le, rhs = 1\<rparr>"

definition diag_constraint :: "nat \<Rightarrow> nat \<times> nat list \<Rightarrow> constraint" where
  "diag_constraint N ix =
     \<lparr>label = ''diag_'' @ str (fst ix) @ ''_total'',
      lhs = [varname (v div N) (v mod N). v \<leftarrow> snd ix],
      sense = Le, rhs = 1\<rparr>"

definition expected_constraints :: "nat \<Rightarrow> int \<Rightarrow> constraint list" where
  "expected_constraints N NQ =
     total_constraint N NQ # map (col_constraint N) [0..<N] @ map (row_constraint N) [0..<N] @
     map (diag_constraint N) (enumerate 0 (diags N))"

text \<open>
  The diagonal of the board that the group number \<open>i\<close> of \<open>diags\<close> stands for: the first
  \<open>2 * N - 3\<close> groups are the diagonals \<open>col - row = k\<close>, the next \<open>2 * N - 3\<close> the
  diagonals \<open>row + col = N - 1 - k\<close>, for the offsets \<open>k\<close> from \<open>- (N - 2)\<close> to \<open>N - 2\<close>
  in this order.
\<close>

definition on_diag :: "nat \<Rightarrow> nat \<Rightarrow> nat \<Rightarrow> nat \<Rightarrow> bool" where
  "on_diag N i r c =
     (if i < 2 * N - 3 then int c - int r = int i - (int N - 2)
      else int r + int c = int N - 1 - (int (i - (2 * N - 3)) - (int N - 2)))"

text \<open>The text of one board, as the specification describes it.\<close>

definition marker :: "real \<Rightarrow> char" where
  "marker v = (if 0 < v then CHR ''W'' else CHR ''.'')"

definition row_text :: "nat \<Rightarrow> (string \<rightharpoonup> real) \<Rightarrow> nat \<Rightarrow> string" where
  "row_text N s r =
     concat (map (\<lambda>c. ''|.'' @ [marker (value_of s (varname r c))] @ ''.'') [0..<N]) @ ''|'' @ [NL]"

definition board_text :: "nat \<Rightarrow> nat \<Rightarrow> (string \<rightharpoonup> real) \<Rightarrow> string" where
  "board_text N i s =
     ''Result '' @ str (i + 1) @ ''    ====================='' @ [NL] @
     concat (map (row_text N s) [0..<N]) @
     ''================================='' @ [NL]"

subsection \<open>Placements of queens, for counting the assignments that satisfy a model\<close>

text \<open>
  These are not part of the script. A placement is the list of the columns of the queens
  of the rows \<open>0, \<dots>, k - 1\<close>, no two queens in one column or on one diagonal;
  \<open>queens N k\<close> lists the placements row by row, and \<open>of_placement\<close> is the
  assignment that has a queen exactly on the squares of a placement.
\<close>

definition safe_ext :: "nat list \<Rightarrow> nat \<Rightarrow> bool" where
  "safe_ext q c =
     list_all (\<lambda>r. q ! r \<noteq> c \<and> q ! r + (length q - r) \<noteq> c \<and> c + (length q - r) \<noteq> q ! r)
       [0..<length q]"

fun queens :: "nat \<Rightarrow> nat \<Rightarrow> nat list list" where
  "queens N 0 = [[]]"
| "queens N (Suc k) = [q @ [c]. q \<leftarrow> queens N k, c \<leftarrow> [0..<N], safe_ext q c]"

definition placement :: "nat \<Rightarrow> nat \<Rightarrow> nat list \<Rightarrow> bool" where
  "placement N k q =
     (length q = k \<and> (\<forall>r < k. q ! r < N) \<and>
      (\<forall>r < k. \<forall>r' < r. q ! r' \<noteq> q ! r \<and> q ! r' + (r - r') \<noteq> q ! r \<and>
                        q ! r + (r - r') \<noteq> q ! r'))"

definition of_placement :: "nat \<Rightarrow> nat list \<Rightarrow> (string \<rightharpoonup> real)" where
  "of_placement N q =
     map_of [(varname r c, if q ! r = c then 1 else 0). r \<leftarrow> [0..<N], c \<leftarrow> [0..<N]]"

section \<open>Auxiliary facts\<close>

subsection \<open>Loops, grids and dicts\<close>

lemma mapM_map: "(\<And>x. x \<in> set xs \<Longrightarrow> f x = Inr (g x)) \<Longrightarrow> mapM f xs = Inr (map g xs)"
  by (induction xs) auto

lemma foldM_append: "foldM f (xs @ ys) s = (case foldM f xs s of Inl e \<Rightarrow> Inl e | Inr s' \<Rightarrow> foldM f ys s')"
  by (induction xs arbitrary: s) (auto split: sum.splits)

lemma concat_grid:
  "concat (map (\<lambda>r. map (f r) [0..<n]) [0..<m]) = map (\<lambda>i. f (i div n) (i mod n)) [0..<m * n]"
proof (induction m)
  case 0
  then show ?case by simp
next
  case (Suc m)
  have "map (f m) [0..<n] = map (\<lambda>i. f (i div n) (i mod n)) [m * n..<m * n + n]"
  proof (rule nth_equalityI)
    show "length (map (f m) [0..<n]) = length (map (\<lambda>i. f (i div n) (i mod n)) [m * n..<m * n + n])"
      by simp
  next
    fix i assume "i < length (map (f m) [0..<n])"
    then have i: "i < n" by simp
    then have "(m * n + i) div n = m" "(m * n + i) mod n = i" by simp_all
    with i show "map (f m) [0..<n] ! i = map (\<lambda>i. f (i div n) (i mod n)) [m * n..<m * n + n] ! i"
      by simp
  qed
  moreover have "[0..<Suc m * n] = [0..<m * n] @ [m * n..<m * n + n]"
    by (metis add.commute le_add1 mult_Suc upt_add_eq_append zero_le)
  ultimately show ?case using Suc by simp
qed

lemma variables_eq: "variables N = map (\<lambda>i. Binary (varname (i div N) (i mod N))) [0..<N * N]"
  unfolding variables_def by (rule concat_grid)

lemma vlabels_eq: "vlabels N = map (\<lambda>i. varname (i div N) (i mod N)) [0..<N * N]"
  unfolding vlabels_def by (rule concat_grid)

lemma length_variables: "length (variables N) = N * N"
  by (simp add: variables_eq)

lemma grid_index_less: "r < N \<Longrightarrow> c < N \<Longrightarrow> r * N + c < N * (N::nat)"
proof -
  assume a: "r < N" "c < N"
  then have "r * N + c < r * N + N" by simp
  also have "\<dots> = Suc r * N" by simp
  also from a have "\<dots> \<le> N * N" by (metis Suc_leI mult_le_mono1)
  finally show ?thesis .
qed

lemma variables_nth: "r < N \<Longrightarrow> c < N \<Longrightarrow> variables N ! (r * N + c) = Binary (varname r c)"
  using grid_index_less[of r N c] by (simp add: variables_eq)

lemma dict_of_map_of: "dict_of kvs = map_of (rev kvs)"
proof -
  have "foldl (\<lambda>m (k, v). m(k \<mapsto> v)) m0 kvs = m0 ++ map_of (rev kvs)" for m0 :: "'a \<rightharpoonup> 'b"
  proof (induction kvs arbitrary: m0)
    case Nil
    then show ?case by simp
  next
    case (Cons kv kvs)
    obtain k v where kv: "kv = (k, v)" by (cases kv)
    have "foldl (\<lambda>m (k, v). m(k \<mapsto> v)) m0 (kv # kvs) = foldl (\<lambda>m (k, v). m(k \<mapsto> v)) (m0(k \<mapsto> v)) kvs"
      by (simp add: kv)
    also have "\<dots> = m0(k \<mapsto> v) ++ map_of (rev kvs)"
      by (rule Cons)
    also have "\<dots> = m0 ++ ([k \<mapsto> v] ++ map_of (rev kvs))"
      by (rule ext) (simp add: map_add_def split: option.splits)
    also have "\<dots> = m0 ++ map_of (rev (kv # kvs))"
      by (simp add: kv)
    finally show ?case .
  qed
  then show ?thesis by (simp add: dict_of_def)
qed

subsection \<open>Decimal numerals and labels are injective\<close>

lemma digit_inj: "a < 10 \<Longrightarrow> b < 10 \<Longrightarrow> digit a = digit b \<Longrightarrow> a = b"
proof -
  assume a: "a < 10" "b < 10" "digit a = digit b"
  have d: "distinct ''0123456789''" by simp
  have l: "length ''0123456789'' = 10" by simp
  from a show ?thesis unfolding digit_def using nth_eq_iff_index_eq[OF d, of a b] l by simp
qed

lemma str_nonempty: "str n \<noteq> []"
  by (subst str.simps) simp

lemma digit_in: "d < 10 \<Longrightarrow> digit d \<in> set ''0123456789''"
  unfolding digit_def by (rule nth_mem) simp

lemma str_digits: "set (str n) \<subseteq> set ''0123456789''"
proof (induction n rule: str.induct)
  case (1 n)
  show ?case
  proof (cases "n < 10")
    case True
    then show ?thesis using digit_in[of n] by (subst str.simps) simp
  next
    case False
    have "n mod 10 < 10" by simp
    then have "digit (n mod 10) \<in> set ''0123456789''" by (rule digit_in)
    with False 1 show ?thesis by (subst str.simps) simp
  qed
qed

lemma str_inj: "str m = str n \<Longrightarrow> m = n"
proof (induction m arbitrary: n rule: str.induct)
  case (1 m)
  show ?case
  proof (cases "m < 10")
    case m: True
    show ?thesis
    proof (cases "n < 10")
      case True
      with m 1(2) show ?thesis by (simp add: str.simps[of m] str.simps[of n] digit_inj)
    next
      case False
      with m 1(2) str_nonempty[of "n div 10"] show ?thesis
        by (simp add: str.simps[of m] str.simps[of n])
    qed
  next
    case m: False
    show ?thesis
    proof (cases "n < 10")
      case True
      with m 1(2) str_nonempty[of "m div 10"] show ?thesis
        by (simp add: str.simps[of m] str.simps[of n])
    next
      case False
      with m 1(2) have e: "str (m div 10) = str (n div 10)" "digit (m mod 10) = digit (n mod 10)"
        by (simp_all add: str.simps[of m] str.simps[of n])
      from 1(1)[OF m e(1)] have "m div 10 = n div 10" .
      moreover from e(2) have "m mod 10 = n mod 10" by (simp add: digit_inj)
      ultimately show ?thesis by (metis div_mult_mod_eq)
    qed
  qed
qed

lemma split_at_unique:
  "a \<notin> set xs \<Longrightarrow> a \<notin> set xs' \<Longrightarrow> xs @ a # ys = xs' @ a # ys' \<Longrightarrow> xs = xs' \<and> ys = ys'"
proof (induction xs arbitrary: xs')
  case Nil
  then show ?case by (cases xs') auto
next
  case (Cons x xs)
  then show ?case by (cases xs') auto
qed

lemma underscore_not_in_str: "CHR ''_'' \<notin> set (str n)"
  using str_digits[of n] by auto

lemma varname_inj: "varname r c = varname r' c' \<Longrightarrow> r = r' \<and> c = c'"
proof -
  assume "varname r c = varname r' c'"
  then have "str r @ CHR ''_'' # (CHR ''c'' # str c) = str r' @ CHR ''_'' # (CHR ''c'' # str c')"
    by (simp add: varname_def)
  from split_at_unique[OF underscore_not_in_str underscore_not_in_str this]
  show ?thesis by (auto dest: str_inj)
qed

lemma col_label_inj: "col_label a = col_label b \<Longrightarrow> a = b"
  by (simp add: col_label_def str_inj)
lemma row_label_inj: "row_label a = row_label b \<Longrightarrow> a = b"
  by (simp add: row_label_def str_inj)
lemma diag_label_inj: "diag_label a = diag_label b \<Longrightarrow> a = b"
  by (simp add: diag_label_def str_inj)

lemma labels_differ:
  "col_label a \<noteq> ''board_total''" "row_label a \<noteq> ''board_total''" "diag_label a \<noteq> ''board_total''"
  "col_label a \<noteq> row_label b" "col_label a \<noteq> diag_label b" "row_label a \<noteq> diag_label b"
  by (simp_all add: col_label_def row_label_def diag_label_def)

lemma map_of_graph:
  "(\<And>k v. (k, v) \<in> set kvs \<Longrightarrow> v = h k) \<Longrightarrow>
   map_of kvs k = (if k \<in> fst ` set kvs then Some (h k) else None)"
  by (induction kvs) (auto simp: rev_image_eqI)

lemma board_eq:
  "board N = Inr (\<lambda>(r, c). if r < N \<and> c < N then Some (Binary (varname r c)) else None)"
proof -
  let ?ps = "[(c, r). c \<leftarrow> [0..<N], r \<leftarrow> [0..<N]]"
  let ?g = "\<lambda>(c, r). ((r, c), Binary (varname r c))"
  have "mapM (\<lambda>(c, r). case getitem (variables N) (r * N + c) of
                             Inl e \<Rightarrow> Inl e
                           | Inr v \<Rightarrow> Inr ((r, c), v)) ?ps = Inr (map ?g ?ps)"
    by (rule mapM_map) (auto simp: getitem_def length_variables grid_index_less variables_nth)
  then have b: "board N = Inr (dict_of (map ?g ?ps))"
    by (simp add: board_def)
  have "dict_of (map ?g ?ps) k = (case k of (r, c) \<Rightarrow> if r < N \<and> c < N then Some (Binary (varname r c)) else None)" for k
  proof -
    have "map_of (rev (map ?g ?ps)) k = (if k \<in> fst ` set (rev (map ?g ?ps)) then Some ((\<lambda>(r, c). Binary (varname r c)) k) else None)"
      by (rule map_of_graph) auto
    moreover have "fst ` set (rev (map ?g ?ps)) = {(r, c). r < N \<and> c < N}"
      by (auto simp: image_iff) 
    ultimately show ?thesis by (auto simp: dict_of_map_of split: prod.splits)
  qed
  then have "dict_of (map ?g ?ps) = (\<lambda>(r, c). if r < N \<and> c < N then Some (Binary (varname r c)) else None)"
    by (intro ext) 
  with b show ?thesis by simp
qed

subsection \<open>The diagonals of the two numberings\<close>

lemma np_diag_square:
  assumes "length a = N" "\<And>row. row \<in> set a \<Longrightarrow> length row = N" "0 < N"
  shows "np_diag a k =
     (if 0 \<le> k then map (\<lambda>i. a ! i ! (i + nat k)) [0..<N - nat k]
      else map (\<lambda>i. a ! (i + nat (- k)) ! i) [0..<N - nat (- k)])"
proof -
  from assms obtain row rest where a: "a = row # rest" by (cases a) auto
  with assms(2) have "length row = N" by simp
  then have m: "(case a of [] \<Rightarrow> 0 | row # _ \<Rightarrow> int (length row)) = int N"
    by (simp add: a)
  have "0 \<le> k \<Longrightarrow> nat (min (int N) (int N - k)) = N - nat k" by linarith
  moreover have "\<not> 0 \<le> k \<Longrightarrow> nat (min (int N + k) (int N)) = N - nat (- k)" by linarith
  ultimately show ?thesis
    unfolding np_diag_def Let_def m assms(1) by simp
qed

lemma length_vnum: "length (vnum N) = N"
  by (simp add: vnum_def)

lemma vnum_rows: "row \<in> set (vnum N) \<Longrightarrow> length row = N"
  by (auto simp: vnum_def)

lemma vnum_nth: "r < N \<Longrightarrow> c < N \<Longrightarrow> vnum N ! r ! c = r * N + c"
  by (simp add: vnum_def)

lemma length_rvnum: "length (rvnum N) = N"
  by (simp add: rvnum_def length_vnum)

lemma rvnum_rows: "row \<in> set (rvnum N) \<Longrightarrow> length row = N"
  by (auto simp: rvnum_def vnum_rows)

lemma rvnum_nth: "r < N \<Longrightarrow> c < N \<Longrightarrow> rvnum N ! r ! c = r * N + (N - 1 - c)"
proof -
  assume a: "r < N" "c < N"
  then have "rvnum N ! r = rev (vnum N ! r)" by (simp add: rvnum_def length_vnum)
  moreover from a have l: "length (vnum N ! r) = N" by (simp add: vnum_def)
  ultimately have "rvnum N ! r ! c = vnum N ! r ! (N - Suc c)"
    using a by (simp add: rev_nth)
  with a show ?thesis by (simp add: vnum_nth)
qed

lemma main_diag:
  assumes "0 < N"
  shows "np_diag (vnum N) k =
     (if 0 \<le> k then map (\<lambda>i. i * N + (i + nat k)) [0..<N - nat k]
      else map (\<lambda>i. (i + nat (- k)) * N + i) [0..<N - nat (- k)])"
  using assms by (subst np_diag_square[where N=N]) (auto simp: length_vnum vnum_rows vnum_nth)

lemma anti_diag:
  assumes "0 < N"
  shows "np_diag (rvnum N) k =
     (if 0 \<le> k then map (\<lambda>i. i * N + (N - 1 - (i + nat k))) [0..<N - nat k]
      else map (\<lambda>i. (i + nat (- k)) * N + (N - 1 - i)) [0..<N - nat (- k)])"
  using assms by (subst np_diag_square[where N=N]) (auto simp: length_rvnum rvnum_rows rvnum_nth)

lemma diags_eq:
  "diags N = map (np_diag (vnum N)) (py_range (- (int N - 2)) (int N - 1)) @
             map (np_diag (rvnum N)) (py_range (- (int N - 2)) (int N - 1))"
  by (simp add: diags_def)

lemma set_py_range: "set (py_range a b) = {k. a \<le> k \<and> k < b}"
  by (auto simp: py_range_def)

lemma length_py_range: "length (py_range a b) = nat (b - a)"
  by (simp add: py_range_def)

lemma py_range_nth: "i < nat (b - a) \<Longrightarrow> py_range a b ! i = a + int i"
  by (simp add: py_range_def)

lemma distinct_py_range: "distinct (py_range a b)"
  by (simp add: py_range_def)

lemma length_main_diag: "0 < N \<Longrightarrow> length (np_diag (vnum N) k) = N - nat \<bar>k\<bar>"
  by (simp add: main_diag)

lemma length_anti_diag: "0 < N \<Longrightarrow> length (np_diag (rvnum N) k) = N - nat \<bar>k\<bar>"
  by (simp add: anti_diag)

lemma diags_length_ge2:
  assumes "0 < N" "g \<in> set (diags N)"
  shows "2 \<le> length g"
proof -
  from assms(2) obtain k where k: "- (int N - 2) \<le> k" "k < int N - 1"
    and g: "g = np_diag (vnum N) k \<or> g = np_diag (rvnum N) k"
    by (auto simp: diags_eq set_py_range)
  from g assms(1) have "length g = N - nat \<bar>k\<bar>"
    by (auto simp: length_main_diag length_anti_diag)
  with k show ?thesis by linarith
qed

lemma set_main_diag:
  assumes "0 < N" "- int N < k" "k < int N"
  shows "set (np_diag (vnum N) k) = {v. v < N * N \<and> int (v mod N) - int (v div N) = k}"
proof (intro set_eqI iffI)
  fix v assume "v \<in> set (np_diag (vnum N) k)"
  then consider i where "0 \<le> k" "i < N - nat k" "v = i * N + (i + nat k)"
    | i where "k < 0" "i < N - nat (- k)" "v = (i + nat (- k)) * N + i"
    using assms(1) by (auto simp: main_diag split: if_splits)
  then show "v \<in> {v. v < N * N \<and> int (v mod N) - int (v div N) = k}"
  proof cases
    case 1
    then have "i + nat k < N" "i < N" by linarith+
    with 1 show ?thesis using grid_index_less[of i N "i + nat k"] by simp
  next
    case 2
    then have "i + nat (- k) < N" "i < N" by linarith+
    with 2 show ?thesis using grid_index_less[of "i + nat (- k)" N i] by simp
  qed
next
  fix v assume "v \<in> {v. v < N * N \<and> int (v mod N) - int (v div N) = k}"
  then have v: "v < N * N" "int (v mod N) - int (v div N) = k" by simp_all
  have dm: "v div N < N" "v mod N < N" "v = v div N * N + v mod N"
    using v(1) assms(1) by (simp_all add: less_mult_imp_div_less)
  show "v \<in> set (np_diag (vnum N) k)"
  proof (cases "0 \<le> k")
    case True
    with v(2) dm have "v div N < N - nat k" "v = v div N * N + (v div N + nat k)"
      by linarith+
    with True assms(1) show ?thesis by (auto simp: main_diag)
  next
    case False
    with v(2) have e: "v mod N + nat (- k) = v div N" by linarith
    with dm have "v mod N < N - nat (- k)" by linarith
    moreover have "v = (v mod N + nat (- k)) * N + v mod N"
      unfolding e by (rule dm(3))
    ultimately show ?thesis using False assms(1) by (auto simp: main_diag)
  qed
qed

lemma set_anti_diag:
  assumes "0 < N" "- int N < k" "k < int N"
  shows "set (np_diag (rvnum N) k) =
           {v. v < N * N \<and> int (v div N) + int (v mod N) = int N - 1 - k}"
proof (intro set_eqI iffI)
  fix v assume "v \<in> set (np_diag (rvnum N) k)"
  then consider i where "0 \<le> k" "i < N - nat k" "v = i * N + (N - 1 - (i + nat k))"
    | i where "k < 0" "i < N - nat (- k)" "v = (i + nat (- k)) * N + (N - 1 - i)"
    using assms(1) by (auto simp: anti_diag split: if_splits)
  then show "v \<in> {v. v < N * N \<and> int (v div N) + int (v mod N) = int N - 1 - k}"
  proof cases
    case 1
    define c where "c = N - 1 - (i + nat k)"
    from 1 have c: "c < N" "i < N" "int i + int c = int N - 1 - k"
      unfolding c_def by linarith+
    from 1 have v: "v = i * N + c" by (simp add: c_def)
    from c have "v div N = i" "v mod N = c" by (simp_all add: v)
    with c show ?thesis using grid_index_less[of i N c] by (simp add: v)
  next
    case 2
    define r c where "r = i + nat (- k)" and "c = N - 1 - i"
    from 2 have c: "c < N" "r < N" "int r + int c = int N - 1 - k"
      unfolding r_def c_def by linarith+
    from 2 have v: "v = r * N + c" by (simp add: r_def c_def)
    from c have "v div N = r" "v mod N = c" by (simp_all add: v)
    with c show ?thesis using grid_index_less[of r N c] by (simp add: v)
  qed
next
  fix v assume "v \<in> {v. v < N * N \<and> int (v div N) + int (v mod N) = int N - 1 - k}"
  then have v: "v < N * N" "int (v div N) + int (v mod N) = int N - 1 - k" by simp_all
  have dm: "v div N < N" "v mod N < N" "v = v div N * N + v mod N"
    using v(1) assms(1) by (simp_all add: less_mult_imp_div_less)
  show "v \<in> set (np_diag (rvnum N) k)"
  proof (cases "0 \<le> k")
    case True
    with v(2) dm have e: "N - 1 - (v div N + nat k) = v mod N" by linarith
    from True v(2) dm have "v div N < N - nat k" by linarith
    moreover have "v = v div N * N + (N - 1 - (v div N + nat k))"
      unfolding e by (rule dm(3))
    ultimately show ?thesis using True assms(1) by (auto simp: anti_diag)
  next
    case False
    with v(2) dm have e: "N - 1 - v mod N + nat (- k) = v div N" by linarith
    from False v(2) dm have e2: "N - 1 - (N - 1 - v mod N) = v mod N" by linarith
    from False v(2) dm have "N - 1 - v mod N < N - nat (- k)" by linarith
    moreover have "v = (N - 1 - v mod N + nat (- k)) * N + (N - 1 - (N - 1 - v mod N))"
      unfolding e e2 by (rule dm(3))
    ultimately show ?thesis using False assms(1) by (auto simp: anti_diag)
  qed
qed

lemma filter_at_most_one:
  "distinct ks \<Longrightarrow> (\<And>k. k \<in> set ks \<Longrightarrow> P k \<Longrightarrow> k = k0) \<Longrightarrow> length (filter P ks) \<le> 1"
proof -
  assume d: "distinct ks" and u: "\<And>k. k \<in> set ks \<Longrightarrow> P k \<Longrightarrow> k = k0"
  have "set (filter P ks) \<subseteq> {k0}" using u by auto
  moreover have "distinct (filter P ks)" using d by simp
  ultimately have "card (set (filter P ks)) \<le> card {k0}" by (intro card_mono) auto
  with distinct_card[OF \<open>distinct (filter P ks)\<close>] show ?thesis by simp
qed

lemma diags_bound:
  assumes "0 < N" "d \<in> set (diags N)" "v \<in> set d"
  shows "v < N * N"
proof -
  from assms(2) obtain k where k: "- (int N - 2) \<le> k" "k < int N - 1"
    and g: "d = np_diag (vnum N) k \<or> d = np_diag (rvnum N) k"
    by (auto simp: diags_eq set_py_range)
  from k have "- int N < k" "k < int N" by linarith+
  with g assms show ?thesis by (auto simp: set_main_diag set_anti_diag)
qed

subsection \<open>The steps of the builder\<close>

lemma foldM_add:
  assumes step: "\<And>(m::cqm) x. x \<in> set xs \<Longrightarrow> label (g x) \<notin> set (map label (constraints m)) \<Longrightarrow>
             f m x = Inr (m\<lparr>constraints := constraints m @ [g x]\<rparr>)"
    and "distinct (map (\<lambda>x. label (g x)) xs)"
    and "\<And>x. x \<in> set xs \<Longrightarrow> label (g x) \<notin> set (map label (constraints (m0::cqm)))"
  shows "foldM f xs m0 = Inr (m0\<lparr>constraints := constraints m0 @ map g xs\<rparr>)"
  using assms
proof (induction xs arbitrary: m0)
  case Nil
  then show ?case by simp
next
  case (Cons x xs)
  have s: "f m0 x = Inr (m0\<lparr>constraints := constraints m0 @ [g x]\<rparr>)"
    by (rule Cons.prems(1)) (use Cons.prems(3) in auto)
  have "foldM f xs (m0\<lparr>constraints := constraints m0 @ [g x]\<rparr>) =
        Inr (m0\<lparr>constraints := constraints m0 @ [g x]\<rparr>
               \<lparr>constraints := constraints (m0\<lparr>constraints := constraints m0 @ [g x]\<rparr>) @ map g xs\<rparr>)"
  proof (rule Cons.IH)
    show "distinct (map (\<lambda>x. label (g x)) xs)" using Cons.prems(2) by simp
  next
    fix m :: cqm and y assume "y \<in> set xs" "label (g y) \<notin> set (map label (constraints m))"
    then show "f m y = Inr (m\<lparr>constraints := constraints m @ [g y]\<rparr>)"
      using Cons.prems(1)[of y m] by simp
  next
    fix y assume y: "y \<in> set xs"
    with Cons.prems(2) have "label (g y) \<noteq> label (g x)" by (auto simp: image_iff)
    moreover from y Cons.prems(3)[of y] have "label (g y) \<notin> set (map label (constraints m0))" by simp
    ultimately show "label (g y) \<notin> set (map label (constraints (m0\<lparr>constraints := constraints m0 @ [g x]\<rparr>)))"
      by simp
  qed
  with s show ?case by simp
qed

lemma add_board_total_eq:
  assumes "0 < N"
  shows "add_board_total N NQ (\<lambda>(r, c). if r < N \<and> c < N then Some (Binary (varname r c)) else None) CQM
         = Inr \<lparr>objective = [], constraints = [total_constraint N NQ]\<rparr>"
proof -
  let ?b = "\<lambda>(r, c). if r < N \<and> c < N then Some (Binary (varname r c)) else None"
  let ?ps = "[(r, c). r \<leftarrow> [0..<N], c \<leftarrow> [0..<N]]"
  have m: "mapM (lookup ?b) ?ps = Inr (map (\<lambda>(r, c). Binary (varname r c)) ?ps)"
    by (rule mapM_map) (auto simp: lookup_def)
  from assms have "?ps \<noteq> []" by (simp add: upt_conv_Cons)
  then have "py_sum (map (\<lambda>(r, c). Binary (varname r c)) ?ps) = Lin (map vlabel (map (\<lambda>(r, c). Binary (varname r c)) ?ps))"
    by (cases "map (\<lambda>(r, c). Binary (varname r c)) ?ps") (auto simp: py_sum_def)
  moreover have "map vlabel (map (\<lambda>(r, c). Binary (varname r c)) ?ps) = [varname r c. r \<leftarrow> [0..<N], c \<leftarrow> [0..<N]]"
    by (simp add: map_concat comp_def)
  ultimately show ?thesis
    unfolding add_board_total_def m
    by (simp add: cmp_eq_def add_constraint_def CQM_def total_constraint_def)
qed

lemma add_col_eq:
  assumes "0 < N" "c < N" "label (col_constraint N c) \<notin> set (map label (constraints m))"
  shows "add_col N (\<lambda>(r, c). if r < N \<and> c < N then Some (Binary (varname r c)) else None) m c
         = Inr (m\<lparr>constraints := constraints m @ [col_constraint N c]\<rparr>)"
proof -
  let ?b = "\<lambda>(r, c). if r < N \<and> c < N then Some (Binary (varname r c)) else None"
  let ?ps = "[(r, c). r \<leftarrow> [0..<N]]"
  have m: "mapM (lookup ?b) ?ps = Inr (map (\<lambda>(r, c). Binary (varname r c)) ?ps)"
    by (rule mapM_map) (use assms(2) in \<open>auto simp: lookup_def\<close>)
  from assms have "?ps \<noteq> []" by (simp add: upt_conv_Cons)
  then have "py_sum (map (\<lambda>(r, c). Binary (varname r c)) ?ps) = Lin (map vlabel (map (\<lambda>(r, c). Binary (varname r c)) ?ps))"
    by (cases "map (\<lambda>(r, c). Binary (varname r c)) ?ps") (auto simp: py_sum_def)
  moreover have "map vlabel (map (\<lambda>(r, c). Binary (varname r c)) ?ps) = [varname r c. r \<leftarrow> [0..<N]]"
    by (simp add: comp_def)
  ultimately show ?thesis
    unfolding add_col_def m using assms(3)
    by (simp add: cmp_le_def add_constraint_def col_constraint_def col_label_def)
qed

lemma add_row_eq:
  assumes "0 < N" "r < N" "label (row_constraint N r) \<notin> set (map label (constraints m))"
  shows "add_row N (\<lambda>(r, c). if r < N \<and> c < N then Some (Binary (varname r c)) else None) m r
         = Inr (m\<lparr>constraints := constraints m @ [row_constraint N r]\<rparr>)"
proof -
  let ?b = "\<lambda>(r, c). if r < N \<and> c < N then Some (Binary (varname r c)) else None"
  let ?ps = "[(r, c). c \<leftarrow> [0..<N]]"
  have m: "mapM (lookup ?b) ?ps = Inr (map (\<lambda>(r, c). Binary (varname r c)) ?ps)"
    by (rule mapM_map) (use assms(2) in \<open>auto simp: lookup_def\<close>)
  from assms have "?ps \<noteq> []" by (simp add: upt_conv_Cons)
  then have "py_sum (map (\<lambda>(r, c). Binary (varname r c)) ?ps) = Lin (map vlabel (map (\<lambda>(r, c). Binary (varname r c)) ?ps))"
    by (cases "map (\<lambda>(r, c). Binary (varname r c)) ?ps") (auto simp: py_sum_def)
  moreover have "map vlabel (map (\<lambda>(r, c). Binary (varname r c)) ?ps) = [varname r c. c \<leftarrow> [0..<N]]"
    by (simp add: comp_def)
  ultimately show ?thesis
    unfolding add_row_def m using assms(3)
    by (simp add: cmp_le_def add_constraint_def row_constraint_def row_label_def)
qed

lemma add_diag_eq:
  assumes "0 < N" "d \<in> set (diags N)" "label (diag_constraint N (i, d)) \<notin> set (map label (constraints m))"
  shows "add_diag N m (i, d) = Inr (m\<lparr>constraints := constraints m @ [diag_constraint N (i, d)]\<rparr>)"
proof -
  have m: "mapM (getitem (variables N)) d = Inr (map (\<lambda>v. Binary (varname (v div N) (v mod N))) d)"
  proof (rule mapM_map)
    fix v assume "v \<in> set d"
    with assms have "v < N * N" by (auto dest: diags_bound)
    then show "getitem (variables N) v = Inr (Binary (varname (v div N) (v mod N)))"
      by (simp add: getitem_def variables_eq)
  qed
  from diags_length_ge2[OF assms(1,2)] have "d \<noteq> []" by auto
  then have "py_sum (map (\<lambda>v. Binary (varname (v div N) (v mod N))) d) = Lin (map vlabel (map (\<lambda>v. Binary (varname (v div N) (v mod N))) d))"
    by (cases d) (auto simp: py_sum_def)
  then show ?thesis
    using assms(3)
    by (simp add: add_diag_def m cmp_le_def add_constraint_def diag_constraint_def diag_label_def comp_def)
qed

lemma label_simps:
  "label (total_constraint N NQ) = ''board_total''"
  "label (col_constraint N c) = col_label c"
  "label (row_constraint N r) = row_label r"
  "label (diag_constraint N ix) = diag_label (fst ix)"
  by (simp_all add: total_constraint_def col_constraint_def row_constraint_def
      diag_constraint_def col_label_def row_label_def diag_label_def)

lemma distinct_col_labels: "distinct (map (\<lambda>c. label (col_constraint N c)) xs) = distinct xs"
  by (simp add: label_simps distinct_map inj_on_def) (auto dest: col_label_inj)

lemma distinct_row_labels: "distinct (map (\<lambda>c. label (row_constraint N c)) xs) = distinct xs"
  by (simp add: label_simps distinct_map inj_on_def) (auto dest: row_label_inj)

lemma distinct_diag_labels:
  "distinct (map (\<lambda>ix. label (diag_constraint N ix)) (enumerate n ds))"
proof -
  have m: "map (\<lambda>ix. label (diag_constraint N ix)) xs = map diag_label (map fst xs)" for xs
    by (induction xs) (simp_all add: label_simps)
  have "distinct (map diag_label [n..<n + length ds])"
    by (auto simp: distinct_map inj_on_def dest: diag_label_inj)
  then show ?thesis by (simp only: m map_fst_enumerate)
qed

lemma build_cqm_eq:
  assumes "0 < N"
  shows "build_cqm N NQ = Inr \<lparr>objective = [], constraints = expected_constraints N NQ\<rparr>"
proof -
  let ?b = "\<lambda>(r, c). if r < N \<and> c < N then Some (Binary (varname r c)) else None"
  let ?m1 = "\<lparr>objective = [], constraints = [total_constraint N NQ]\<rparr>"
  let ?m2 = "\<lparr>objective = [], constraints = total_constraint N NQ # map (col_constraint N) [0..<N]\<rparr>"
  let ?m3 = "\<lparr>objective = [], constraints = total_constraint N NQ # map (col_constraint N) [0..<N]
                @ map (row_constraint N) [0..<N]\<rparr>"
  have "foldM (add_col N ?b) [0..<N] ?m1 = Inr (?m1\<lparr>constraints := constraints ?m1 @ map (col_constraint N) [0..<N]\<rparr>)"
  proof (rule foldM_add)
    show "distinct (map (\<lambda>x. label (col_constraint N x)) [0..<N])"
      by (simp add: distinct_col_labels)
  qed (simp_all add: add_col_eq assms label_simps labels_differ)
  then have c: "foldM (add_col N ?b) [0..<N] ?m1 = Inr ?m2" by simp
  have "foldM (add_row N ?b) [0..<N] ?m2 = Inr (?m2\<lparr>constraints := constraints ?m2 @ map (row_constraint N) [0..<N]\<rparr>)"
  proof (rule foldM_add)
    show "distinct (map (\<lambda>x. label (row_constraint N x)) [0..<N])"
      by (simp add: distinct_row_labels)
  next
    fix x assume "x \<in> set [0..<N]"
    show "label (row_constraint N x) \<notin> set (map label (constraints ?m2))"
      by (auto simp: label_simps labels_differ labels_differ[symmetric])
  qed (simp_all add: add_row_eq assms)
  then have r: "foldM (add_row N ?b) [0..<N] ?m2 = Inr ?m3" by simp
  have "foldM (add_diag N) (enumerate 0 (diags N)) ?m3 =
        Inr (?m3\<lparr>constraints := constraints ?m3 @ map (diag_constraint N) (enumerate 0 (diags N))\<rparr>)"
  proof (rule foldM_add)
    show "distinct (map (\<lambda>x. label (diag_constraint N x)) (enumerate 0 (diags N)))"
      by (rule distinct_diag_labels)
  next
    fix x assume "x \<in> set (enumerate 0 (diags N))"
    show "label (diag_constraint N x) \<notin> set (map label (constraints ?m3))"
      by (auto simp: label_simps labels_differ labels_differ[symmetric])
  next
    fix m :: cqm and x
    assume x: "x \<in> set (enumerate 0 (diags N))"
      and l: "label (diag_constraint N x) \<notin> set (map label (constraints m))"
    obtain i d where id: "x = (i, d)" by (cases x)
    with x have "d \<in> set (diags N)" by (auto simp: in_set_enumerate_eq)
    from add_diag_eq[OF assms this] l show "add_diag N m x = Inr (m\<lparr>constraints := constraints m @ [diag_constraint N x]\<rparr>)"
      by (simp add: id)
  qed
  then have d: "foldM (add_diag N) (enumerate 0 (diags N)) ?m3 =
     Inr \<lparr>objective = [], constraints = expected_constraints N NQ\<rparr>"
    by (simp add: expected_constraints_def)
  from assms show ?thesis
    by (simp add: build_cqm_def board_eq add_board_total_eq c r d)
qed

lemma diags_1: "diags 1 = []" "diags (Suc 0) = []"
  by (simp_all add: diags_def py_range_def)

lemma diags_2: "diags 2 = [[0, 3], [1, 2]]"
  by code_simp

lemma str_small: "n < 10 \<Longrightarrow> str n = [digit n]"
  by (subst str.simps) simp

lemma distinct_vlabels: "distinct (vlabels N)"
  unfolding vlabels_eq distinct_map
proof (intro conjI inj_onI)
  fix i j assume "i \<in> set [0..<N * N]" "j \<in> set [0..<N * N]"
    and "varname (i div N) (i mod N) = varname (j div N) (j mod N)"
  then have "i div N = j div N" "i mod N = j mod N" by (auto dest: varname_inj)
  then show "i = j" by (metis div_mult_mod_eq)
qed simp

subsection \<open>The groups of the diagonal enumerator\<close>

lemma length_diags: "2 \<le> N \<Longrightarrow> length (diags N) = 2 * (2 * N - 3)"
  by (simp add: diags_eq length_py_range)

lemma diags_nth_main:
  assumes "2 \<le> N" "i < 2 * N - 3"
  shows "diags N ! i = np_diag (vnum N) (int i - (int N - 2))"
proof -
  let ?ks = "py_range (- (int N - 2)) (int N - 1)"
  from assms have l: "i < length ?ks" by (simp add: length_py_range)
  then have h: "diags N ! i = np_diag (vnum N) (?ks ! i)"
    by (simp add: diags_eq nth_append)
  from l have "?ks ! i = - (int N - 2) + int i"
    by (intro py_range_nth) (simp add: length_py_range)
  then have e: "?ks ! i = int i - (int N - 2)" by linarith
  show ?thesis by (simp only: h e)
qed

lemma diags_nth_anti:
  assumes "2 \<le> N" "2 * N - 3 \<le> i" "i < 2 * (2 * N - 3)"
  shows "diags N ! i = np_diag (rvnum N) (int (i - (2 * N - 3)) - (int N - 2))"
proof -
  let ?ks = "py_range (- (int N - 2)) (int N - 1)"
  from assms have n: "length ?ks = 2 * N - 3" by (simp add: length_py_range)
  with assms have l: "i - (2 * N - 3) < length ?ks" by linarith
  from n assms have h: "diags N ! i = np_diag (rvnum N) (?ks ! (i - (2 * N - 3)))"
    using l by (simp add: diags_eq nth_append)
  from l have "?ks ! (i - (2 * N - 3)) = - (int N - 2) + int (i - (2 * N - 3))"
    by (intro py_range_nth) (simp add: length_py_range)
  then have e: "?ks ! (i - (2 * N - 3)) = int (i - (2 * N - 3)) - (int N - 2)" by linarith
  show ?thesis by (simp only: h e)
qed

lemma diags_nth_set:
  assumes "2 \<le> N" "i < length (diags N)"
  shows "set (diags N ! i) = {v. v < N * N \<and> on_diag N i (v div N) (v mod N)}"
proof (cases "i < 2 * N - 3")
  case True
  with assms have k: "- int N < int i - (int N - 2)" "int i - (int N - 2) < int N" by linarith+
  from assms have "0 < N" by simp
  from set_main_diag[OF this k] True show ?thesis
    by (simp add: diags_nth_main[OF assms(1) True] on_diag_def)
next
  case False
  with assms have i: "2 * N - 3 \<le> i" "i < 2 * (2 * N - 3)" by (simp_all add: length_diags)
  then have k: "- int N < int (i - (2 * N - 3)) - (int N - 2)" "int (i - (2 * N - 3)) - (int N - 2) < int N"
    using assms(1) by linarith+
  from assms have "0 < N" by simp
  from set_anti_diag[OF this k] False show ?thesis
    by (simp add: diags_nth_anti[OF assms(1) i] on_diag_def)
qed

lemma diags_member_count:
  assumes "0 < N"
  shows "length (filter (\<lambda>g. v \<in> set g) (diags N)) \<le> 2"
proof -
  let ?ks = "py_range (- (int N - 2)) (int N - 1)"
  have in_range: "- int N < k \<and> k < int N" if "k \<in> set ?ks" for k
    using that by (auto simp: set_py_range)
  have "length (filter (\<lambda>k. v \<in> set (np_diag (vnum N) k)) ?ks) \<le> 1"
  proof (rule filter_at_most_one[where ?k0.0 = "int (v mod N) - int (v div N)"])
    fix k assume "k \<in> set ?ks" "v \<in> set (np_diag (vnum N) k)"
    with in_range[of k] set_main_diag[OF assms, of k] show "k = int (v mod N) - int (v div N)"
      by simp
  qed (rule distinct_py_range)
  moreover have "length (filter (\<lambda>k. v \<in> set (np_diag (rvnum N) k)) ?ks) \<le> 1"
  proof (rule filter_at_most_one[where ?k0.0 = "int N - 1 - (int (v div N) + int (v mod N))"])
    fix k assume "k \<in> set ?ks" "v \<in> set (np_diag (rvnum N) k)"
    with in_range[of k] set_anti_diag[OF assms, of k]
    show "k = int N - 1 - (int (v div N) + int (v mod N))"
      by simp
  qed (rule distinct_py_range)
  ultimately show ?thesis
    by (simp add: diags_eq filter_map comp_def)
qed

lemma diags_3: "diags 3 = [[3, 7], [0, 4, 8], [1, 5], [5, 7], [2, 4, 6], [1, 3]]"
  by code_simp

subsection \<open>The diagonal constraints and the labels\<close>

lemma distinct_main_diag: "0 < N \<Longrightarrow> distinct (np_diag (vnum N) k)"
proof -
  assume N: "0 < N"
  have "inj_on (\<lambda>i. i * N + (i + nat k)) {0..<N - nat k}"
  proof (rule inj_on_inverseI[where g = "\<lambda>v. v div N"])
    fix i assume "i \<in> {0..<N - nat k}"
    then have "i + nat k < N" by auto
    then show "(i * N + (i + nat k)) div N = i" by simp
  qed
  moreover have "inj_on (\<lambda>i. (i + nat (- k)) * N + i) {0..<N - nat (- k)}"
  proof (rule inj_on_inverseI[where g = "\<lambda>v. v mod N"])
    fix i assume "i \<in> {0..<N - nat (- k)}"
    then have "i < N" by auto
    then show "((i + nat (- k)) * N + i) mod N = i" by simp
  qed
  ultimately show ?thesis
    by (simp add: main_diag[OF N] distinct_map)
qed

lemma distinct_anti_diag: "0 < N \<Longrightarrow> distinct (np_diag (rvnum N) k)"
proof -
  assume N: "0 < N"
  have "inj_on (\<lambda>i. i * N + (N - 1 - (i + nat k))) {0..<N - nat k}"
  proof (rule inj_on_inverseI[where g = "\<lambda>v. v div N"])
    fix i assume "i \<in> {0..<N - nat k}"
    with N have "N - 1 - (i + nat k) < N" by auto
    then show "(i * N + (N - 1 - (i + nat k))) div N = i" by simp
  qed
  moreover have "inj_on (\<lambda>i. (i + nat (- k)) * N + (N - 1 - i)) {0..<N - nat (- k)}"
  proof (rule inj_on_inverseI[where g = "\<lambda>v. N - 1 - v mod N"])
    fix i assume "i \<in> {0..<N - nat (- k)}"
    then have i: "i < N" by auto
    with N have "N - 1 - i < N" by auto
    then have "((i + nat (- k)) * N + (N - 1 - i)) mod N = N - 1 - i" by simp
    with i show "N - 1 - ((i + nat (- k)) * N + (N - 1 - i)) mod N = i" by simp
  qed
  ultimately show ?thesis
    by (simp add: anti_diag[OF N] distinct_map)
qed

lemma distinct_diags: "0 < N \<Longrightarrow> d \<in> set (diags N) \<Longrightarrow> distinct d"
  by (auto simp: diags_eq distinct_main_diag distinct_anti_diag)






lemma varname_small: "r < 10 \<Longrightarrow> c < 10 \<Longrightarrow> varname r c = ''square_r'' @ [digit r] @ ''_c'' @ [digit c]"
  by (simp add: varname_def str_small)

subsection \<open>Printing\<close>

lemma foldM_emit:
  "(\<And>x out. x \<in> set xs \<Longrightarrow> f out x = Inr (out @ g x)) \<Longrightarrow>
   foldM f xs out = Inr (out @ concat (map g xs))"
  by (induction xs arbitrary: out) simp_all

lemma full_sample_value:
  assumes "full_sample N s" "r < N" "c < N"
  shows "s (varname r c) = Some (value_of s (varname r c))"
proof -
  from assms(2,3) have "varname r c \<in> set (vlabels N)" by (fastforce simp: vlabels_def)
  with assms(1) have "s (varname r c) \<noteq> None" by (simp add: full_sample_def list_all_iff)
  then show ?thesis by (auto simp: value_of_def)
qed

lemma print_square_eq:
  assumes "full_sample N s" "r < N" "c < N"
  shows "print_square s r out c = Inr (out @ ''|.'' @ [marker (value_of s (varname r c))] @ ''.'')"
  using full_sample_value[OF assms]
  by (simp add: print_square_def lookup_def marker_def)

lemma print_row_eq:
  assumes "full_sample N s" "r < N"
  shows "print_row N s out r = Inr (out @ row_text N s r)"
proof -
  have "foldM (print_square s r) [0..<N] out =
        Inr (out @ concat (map (\<lambda>c. ''|.'' @ [marker (value_of s (varname r c))] @ ''.'') [0..<N]))"
    by (rule foldM_emit) (simp add: print_square_eq[OF assms])
  then show ?thesis by (simp add: print_row_def row_text_def print_def)
qed

lemma print_result_eq:
  assumes "full_sample N s"
  shows "print_result N out (i, s) = Inr (out @ board_text N i s)"
proof -
  have "foldM (print_row N s) [0..<N] out' = Inr (out' @ concat (map (row_text N s) [0..<N]))" for out'
    by (rule foldM_emit) (simp add: print_row_eq[OF assms])
  then show ?thesis by (simp add: print_result_def board_text_def print_def)
qed




subsection \<open>Assignments, sums and counts\<close>

lemma sum_list_le_length:
  "(\<And>x. x \<in> set xs \<Longrightarrow> f x \<le> (1::real)) \<Longrightarrow> sum_list (map f xs) \<le> real (length xs)"
proof (induction xs)
  case Nil
  then show ?case by simp
next
  case (Cons x xs)
  have "f x \<le> 1" by (rule Cons.prems) simp
  moreover have "sum_list (map f xs) \<le> real (length xs)"
    by (rule Cons.IH) (simp add: Cons.prems)
  ultimately show ?case by simp
qed

lemma binary_value:
  assumes "binary_assignment N s" "x \<in> set (vlabels N)"
  shows "value_of s x = 0 \<or> value_of s x = 1"
  using assms by (auto simp: binary_assignment_def list_all_iff value_of_def)

lemma total_simps:
  "lhs (total_constraint N NQ) = vlabels N"
  "sense (total_constraint N NQ) = Eq"
  "rhs (total_constraint N NQ) = NQ"
  by (simp_all add: total_constraint_def vlabels_def)

lemma vlabels_2:
  "vlabels 2 = [''square_r0_c0'', ''square_r0_c1'', ''square_r1_c0'', ''square_r1_c1'']"
  by (simp add: vlabels_def varname_small digit_def upt_conv_Cons)


lemma col_simps:
  "lhs (col_constraint N c) = map (\<lambda>r. varname r c) [0..<N]"
  "sense (col_constraint N c) = Le"
  "rhs (col_constraint N c) = 1"
  by (simp_all add: col_constraint_def)

lemma row_simps:
  "lhs (row_constraint N r) = map (\<lambda>c. varname r c) [0..<N]"
  "sense (row_constraint N r) = Le"
  "rhs (row_constraint N r) = 1"
  by (simp_all add: row_constraint_def)

lemma count_list_concat:
  "real (count_list (concat xss) a) = sum_list (map (\<lambda>xs. real (count_list xs a)) xss)"
  by (induction xss) simp_all

lemma square_count:
  "real (count_list [CHR ''|'', CHR ''.'', m, CHR ''.''] CHR ''W'') = (if m = CHR ''W'' then 1 else 0)"
  by simp

lemma length_filter_sum:
  "real (length (filter P xs)) = sum_list (map (\<lambda>x. if P x then 1 else 0) xs)"
  by (induction xs) simp_all

lemma count_list_sum:
  "real (count_list xs a) = sum_list (map (\<lambda>x. if x = a then 1 else 0) xs)"
  by (induction xs) simp_all

lemma varname_in_vlabels: "r < N \<Longrightarrow> c < N \<Longrightarrow> varname r c \<in> set (vlabels N)"
  by (fastforce simp: vlabels_def)

lemma marker_W:
  assumes "binary_assignment N s" "r < N" "c < N"
  shows "(if marker (value_of s (varname r c)) = CHR ''W'' then 1 else 0) = value_of s (varname r c)"
  using binary_value[OF assms(1) varname_in_vlabels[OF assms(2,3)]]
  by (auto simp: marker_def)

lemma row_text_count:
  assumes "binary_assignment N s" "r < N"
  shows "real (count_list (row_text N s r) CHR ''W'') = lhs_value s (lhs (row_constraint N r))"
proof -
  have "real (count_list (row_text N s r) CHR ''W'') =
        sum_list (map (\<lambda>c. if marker (value_of s (varname r c)) = CHR ''W'' then 1 else 0) [0..<N])"
    by (simp add: row_text_def count_list_concat comp_def square_count
        del: count_list.simps)
  also have "\<dots> = sum_list (map (\<lambda>c. value_of s (varname r c)) [0..<N])"
    by (rule arg_cong[where f = sum_list], rule map_cong) (simp_all add: marker_W[OF assms])
  finally show ?thesis by (simp add: lhs_value_def row_simps comp_def)
qed

lemma sum_list_grid:
  "sum_list (map f (concat (map (\<lambda>r. map (g r) [0..<N]) [0..<M]))) =
   sum_list (map (\<lambda>r. sum_list (map (\<lambda>c. f (g r c)) [0..<N])) [0..<M])"
  by (induction M) (simp_all add: comp_def)

lemma board_count:
  assumes "binary_assignment N s"
  shows "real (count_list (concat (map (row_text N s) [0..<N])) CHR ''W'') = lhs_value s (vlabels N)"
proof -
  have "real (count_list (concat (map (row_text N s) [0..<N])) CHR ''W'') =
        sum_list (map (\<lambda>r. real (count_list (row_text N s r) CHR ''W'')) [0..<N])"
    by (simp add: count_list_concat comp_def)
  also have "\<dots> = sum_list (map (\<lambda>r. lhs_value s (lhs (row_constraint N r))) [0..<N])"
    by (rule arg_cong[where f = sum_list], rule map_cong) (simp_all add: row_text_count[OF assms])
  also have "\<dots> = lhs_value s (vlabels N)"
    by (simp add: lhs_value_def row_simps vlabels_def sum_list_grid comp_def)
  finally show ?thesis .
qed

lemma row_text_nth:
  assumes "c < N"
  shows "row_text N s r ! (4 * c + 2) = marker (value_of s (varname r c))"
proof -
  have "(concat (map (\<lambda>c. [a, b, g c, d]) [0..<n]) @ rest) ! (4 * c + 2) = g c"
    if "c < n" for n c and a b d :: char and g rest
    using that
  proof (induction n arbitrary: rest)
    case 0
    then show ?case by simp
  next
    case (Suc n)
    have l: "length (concat (map (\<lambda>c. [a, b, g c, d]) [0..<n])) = 4 * n"
      by (induction n) simp_all
    show ?case
    proof (cases "c < n")
      case True
      from Suc.IH[OF True, of "[a, b, g n, d] @ rest"] show ?thesis by simp
    next
      case False
      with Suc.prems have "c = n" by simp
      then show ?thesis by (simp add: nth_append l)
    qed
  qed
  from this[OF assms] show ?thesis by (simp add: row_text_def)
qed

lemma col_count:
  assumes "binary_assignment N s" "c < N"
  shows "real (length (filter (\<lambda>r. row_text N s r ! (4 * c + 2) = CHR ''W'') [0..<N])) =
         lhs_value s (lhs (col_constraint N c))"
proof -
  have "real (length (filter (\<lambda>r. row_text N s r ! (4 * c + 2) = CHR ''W'') [0..<N])) =
        sum_list (map (\<lambda>r. if marker (value_of s (varname r c)) = CHR ''W'' then 1 else 0) [0..<N])"
    by (simp only: length_filter_sum row_text_nth[OF assms(2)])
  also have "\<dots> = sum_list (map (\<lambda>r. value_of s (varname r c)) [0..<N])"
    by (rule arg_cong[where f = sum_list], rule map_cong) (simp_all add: marker_W[OF assms(1) _ assms(2)])
  finally show ?thesis by (simp add: lhs_value_def col_simps comp_def)
qed

lemma W_not_in_str: "CHR ''W'' \<notin> set (str n)"
  using str_digits[of n] by auto

lemma binary_full: "binary_assignment N s \<Longrightarrow> full_sample N s"
  by (auto simp: binary_assignment_def full_sample_def list_all_iff)

lemma satisfies_expected:
  assumes "0 < N" "build_cqm N NQ = Inr m" "satisfies m s"
  shows "holds s (total_constraint N NQ)"
    and "c < N \<Longrightarrow> holds s (col_constraint N c)"
    and "r < N \<Longrightarrow> holds s (row_constraint N r)"
    and "d \<in> set (enumerate 0 (diags N)) \<Longrightarrow> holds s (diag_constraint N d)"
proof -
  from assms(2) have m: "constraints m = expected_constraints N NQ"
    by (simp add: build_cqm_eq[OF assms(1)]) auto
  with assms(3) have a: "\<And>x. x \<in> set (expected_constraints N NQ) \<Longrightarrow> holds s x"
    by (simp add: satisfies_def list_all_iff)
  show "holds s (total_constraint N NQ)"
    by (rule a) (simp add: expected_constraints_def)
  show "c < N \<Longrightarrow> holds s (col_constraint N c)"
    by (rule a) (simp add: expected_constraints_def)
  show "r < N \<Longrightarrow> holds s (row_constraint N r)"
    by (rule a) (simp add: expected_constraints_def)
  show "d \<in> set (enumerate 0 (diags N)) \<Longrightarrow> holds s (diag_constraint N d)"
    by (rule a) (simp add: expected_constraints_def)
qed

lemma board_text_count:
  "count_list (board_text N i s) CHR ''W'' =
   count_list (concat (map (row_text N s) [0..<N])) CHR ''W''"
  using W_not_in_str[of "i + 1"] by (simp add: board_text_def count_list_0_iff)


subsection \<open>Satisfying assignments are the placements of \<open>N\<close> queens\<close>

lemma placement_snoc:
  "placement N (Suc k) (q @ [c]) = (placement N k q \<and> c < N \<and> safe_ext q c)"
proof
  assume p: "placement N (Suc k) (q @ [c])"
  then have l: "length q = k" by (simp add: placement_def)
  have a: "\<forall>r < k. q ! r < N"
  proof (intro allI impI)
    fix r assume "r < k"
    with p l have "(q @ [c]) ! r < N" by (simp add: placement_def)
    with \<open>r < k\<close> l show "q ! r < N" by (simp add: nth_append)
  qed
  have b: "\<forall>r < k. \<forall>r' < r. q ! r' \<noteq> q ! r \<and> q ! r' + (r - r') \<noteq> q ! r \<and> q ! r + (r - r') \<noteq> q ! r'"
  proof (intro allI impI)
    fix r r' assume r: "r < k" "r' < r"
    with p have "(q @ [c]) ! r' \<noteq> (q @ [c]) ! r \<and> (q @ [c]) ! r' + (r - r') \<noteq> (q @ [c]) ! r \<and>
        (q @ [c]) ! r + (r - r') \<noteq> (q @ [c]) ! r'"
      by (simp add: placement_def)
    with r l show "q ! r' \<noteq> q ! r \<and> q ! r' + (r - r') \<noteq> q ! r \<and> q ! r + (r - r') \<noteq> q ! r'"
      by (simp add: nth_append)
  qed
  from p l have c: "c < N"
    by (auto simp: placement_def nth_append dest: spec[of _ k])
  have s: "safe_ext q c"
    unfolding safe_ext_def list_all_iff
  proof
    fix r assume "r \<in> set [0..<length q]"
    with l have r: "r < k" by simp
    with p have "(q @ [c]) ! r \<noteq> (q @ [c]) ! k \<and> (q @ [c]) ! r + (k - r) \<noteq> (q @ [c]) ! k \<and>
        (q @ [c]) ! k + (k - r) \<noteq> (q @ [c]) ! r"
      by (simp add: placement_def)
    with r l show "q ! r \<noteq> c \<and> q ! r + (length q - r) \<noteq> c \<and> c + (length q - r) \<noteq> q ! r"
      by (simp add: nth_append)
  qed
  from l a b c s show "placement N k q \<and> c < N \<and> safe_ext q c"
    by (simp add: placement_def)
next
  assume h: "placement N k q \<and> c < N \<and> safe_ext q c"
  then have l: "length q = k" by (simp add: placement_def)
  have a: "\<forall>r < Suc k. (q @ [c]) ! r < N"
    using h l by (auto simp: placement_def nth_append less_Suc_eq)
  have b: "\<forall>r < Suc k. \<forall>r' < r. (q @ [c]) ! r' \<noteq> (q @ [c]) ! r \<and>
        (q @ [c]) ! r' + (r - r') \<noteq> (q @ [c]) ! r \<and> (q @ [c]) ! r + (r - r') \<noteq> (q @ [c]) ! r'"
  proof (intro allI impI)
    fix r r' assume r: "r < Suc k" "r' < r"
    show "(q @ [c]) ! r' \<noteq> (q @ [c]) ! r \<and>
        (q @ [c]) ! r' + (r - r') \<noteq> (q @ [c]) ! r \<and> (q @ [c]) ! r + (r - r') \<noteq> (q @ [c]) ! r'"
    proof (cases "r = k")
      case True
      with r have "r' \<in> set [0..<length q]" using l by simp
      with h have "q ! r' \<noteq> c \<and> q ! r' + (length q - r') \<noteq> c \<and> c + (length q - r') \<noteq> q ! r'"
        by (simp add: safe_ext_def list_all_iff)
      with True r l show ?thesis by (simp add: nth_append)
    next
      case False
      with r have "r < k" by simp
      with h r(2) have "q ! r' \<noteq> q ! r \<and> q ! r' + (r - r') \<noteq> q ! r \<and> q ! r + (r - r') \<noteq> q ! r'"
        by (simp add: placement_def)
      with \<open>r < k\<close> r(2) l show ?thesis by (simp add: nth_append)
    qed
  qed
  from l a b show "placement N (Suc k) (q @ [c])"
    by (simp add: placement_def)
qed

lemma queens_set: "set (queens N k) = {q. placement N k q}"
proof (induction k)
  case 0
  show ?case by (auto simp: placement_def)
next
  case (Suc k)
  show ?case
  proof (intro set_eqI iffI)
    fix q' assume "q' \<in> set (queens N (Suc k))"
    then obtain q c where "q' = q @ [c]" "q \<in> set (queens N k)" "c < N" "safe_ext q c"
      by auto
    with Suc show "q' \<in> {q. placement N (Suc k) q}"
      by (simp add: placement_snoc)
  next
    fix q' assume "q' \<in> {q. placement N (Suc k) q}"
    then have p: "placement N (Suc k) q'" by simp
    then have "q' \<noteq> []" by (auto simp: placement_def)
    then obtain q c where q: "q' = q @ [c]" by (metis rev_exhaust)
    with p have "placement N k q" "c < N" "safe_ext q c" by (simp_all add: placement_snoc)
    with Suc q show "q' \<in> set (queens N (Suc k))" by auto
  qed
qed

lemma in_grid:
  "x \<in> set (concat (map (\<lambda>r. map (f r) [0..<N]) [0..<M])) \<longleftrightarrow> (\<exists>r < M. \<exists>c < N. x = f r c)"
proof
  assume "x \<in> set (concat (map (\<lambda>r. map (f r) [0..<N]) [0..<M]))"
  then obtain i where i: "i < M * N" "x = f (i div N) (i mod N)"
    unfolding concat_grid by auto
  then have "0 < N" by (cases N) simp_all
  with i(1) have "i div N < M" "i mod N < N"
    by (simp_all add: less_mult_imp_div_less)
  with i(2) show "\<exists>r < M. \<exists>c < N. x = f r c" by blast
next
  assume "\<exists>r < M. \<exists>c < N. x = f r c"
  then obtain r c where rc: "r < M" "c < N" "x = f r c" by blast
  then have "r * N + c < r * N + N" by simp
  also have "\<dots> = Suc r * N" by simp
  also from rc(1) have "\<dots> \<le> M * N" by (metis Suc_leI mult_le_mono1)
  finally have "r * N + c < M * N" .
  moreover from rc have "x = f ((r * N + c) div N) ((r * N + c) mod N)" by simp
  ultimately show "x \<in> set (concat (map (\<lambda>r. map (f r) [0..<N]) [0..<M]))"
    unfolding concat_grid set_map by (intro image_eqI[where x = "r * N + c"]) simp_all
qed

lemma of_placement_keys:
  "map fst [(varname r c, if q ! r = c then 1 else (0::real)). r \<leftarrow> [0..<N], c \<leftarrow> [0..<N]] = vlabels N"
  by (simp add: vlabels_def map_concat comp_def)

lemma of_placement_value:
  assumes "r < N" "c < N"
  shows "of_placement N q (varname r c) = Some (if q ! r = c then 1 else 0)"
proof -
  have "distinct (map fst [(varname r c, if q ! r = c then 1 else (0::real)). r \<leftarrow> [0..<N], c \<leftarrow> [0..<N]])"
    by (simp only: of_placement_keys distinct_vlabels)
  moreover have "(varname r c, if q ! r = c then 1 else (0::real)) \<in>
      set [(varname r c, if q ! r = c then 1 else (0::real)). r \<leftarrow> [0..<N], c \<leftarrow> [0..<N]]"
    unfolding in_grid using assms by blast
  ultimately show ?thesis
    unfolding of_placement_def by (rule map_of_is_SomeI)
qed

lemma of_placement_dom: "dom (of_placement N q) = set (vlabels N)"
  unfolding of_placement_def dom_map_of_conv_image_fst
  by (simp only: set_map[symmetric] of_placement_keys)

lemma in_vlabels_iff: "x \<in> set (vlabels N) \<longleftrightarrow> (\<exists>r < N. \<exists>c < N. x = varname r c)"
  unfolding vlabels_def by (rule in_grid)

lemma value_of_placement:
  "r < N \<Longrightarrow> c < N \<Longrightarrow> value_of (of_placement N q) (varname r c) = (if q ! r = c then 1 else 0)"
  by (simp add: value_of_def of_placement_value)

lemma binary_of_placement: "binary_assignment N (of_placement N q)"
  unfolding binary_assignment_def list_all_iff
proof (intro conjI ballI)
  fix x assume "x \<in> set (vlabels N)"
  then obtain r c where "r < N" "c < N" "x = varname r c" by (auto simp: in_vlabels_iff)
  then show "of_placement N q x = Some 0 \<or> of_placement N q x = Some 1"
    by (simp add: of_placement_value)
qed (rule of_placement_dom)

lemma filter_le_1_iff:
  assumes "distinct xs"
  shows "length (filter P xs) \<le> 1 \<longleftrightarrow> (\<forall>x \<in> set xs. \<forall>y \<in> set xs. P x \<and> P y \<longrightarrow> x = y)"
proof
  assume l: "length (filter P xs) \<le> 1"
  show "\<forall>x \<in> set xs. \<forall>y \<in> set xs. P x \<and> P y \<longrightarrow> x = y"
  proof (intro ballI impI)
    fix x y assume "x \<in> set xs" "y \<in> set xs" "P x \<and> P y"
    then have "{x, y} \<subseteq> set (filter P xs)" by simp
    then have "card {x, y} \<le> card (set (filter P xs))" by (intro card_mono) simp_all
    also have "\<dots> \<le> length (filter P xs)" by (rule card_length)
    finally have "card {x, y} \<le> 1" using l by simp
    then show "x = y" by (cases "x = y") simp_all
  qed
next
  assume u: "\<forall>x \<in> set xs. \<forall>y \<in> set xs. P x \<and> P y \<longrightarrow> x = y"
  show "length (filter P xs) \<le> 1"
  proof (cases "filter P xs")
    case Nil
    then show ?thesis by simp
  next
    case (Cons k0 rest)
    then have "k0 \<in> set (filter P xs)" by simp
    then have k0: "k0 \<in> set xs" "P k0" by simp_all
    show ?thesis
      by (rule filter_at_most_one[OF assms, of P k0]) (use u k0 in blast)
  qed
qed

lemma binary_indicator:
  assumes "binary_assignment N s" "x \<in> set (vlabels N)"
  shows "value_of s x = (if value_of s x = 1 then 1 else 0)"
  using binary_value[OF assms] by auto

lemma lhs_le_1_iff:
  assumes "binary_assignment N s" "distinct vs" "\<And>v. v \<in> set vs \<Longrightarrow> g v \<in> set (vlabels N)"
  shows "lhs_value s (map g vs) \<le> 1 \<longleftrightarrow>
         (\<forall>x \<in> set vs. \<forall>y \<in> set vs. value_of s (g x) = 1 \<and> value_of s (g y) = 1 \<longrightarrow> x = y)"
proof -
  have "lhs_value s (map g vs) = sum_list (map (\<lambda>v. value_of s (g v)) vs)"
    by (simp add: lhs_value_def comp_def)
  also have "\<dots> = sum_list (map (\<lambda>v. if value_of s (g v) = 1 then 1 else 0) vs)"
    by (rule arg_cong[where f = sum_list], rule map_cong[OF refl])
      (rule binary_indicator[OF assms(1) assms(3)])
  also have "\<dots> = real (length (filter (\<lambda>v. value_of s (g v) = 1) vs))"
    by (simp only: length_filter_sum)
  finally have "lhs_value s (map g vs) \<le> 1 \<longleftrightarrow> length (filter (\<lambda>v. value_of s (g v) = 1) vs) \<le> 1"
    by simp
  then show ?thesis by (simp only: filter_le_1_iff[OF assms(2)])
qed

lemma sum_indicator:
  "sum_list (map (\<lambda>c. if a = c then 1 else 0) [0..<N]) = (if a < N then 1 else (0::real))"
  by (induction N) auto

lemma placement_iff:
  "placement N k q \<longleftrightarrow>
     length q = k \<and> (\<forall>r < k. q ! r < N) \<and>
     (\<forall>r < k. \<forall>r' < k. r \<noteq> r' \<longrightarrow>
        q ! r \<noteq> q ! r' \<and> int (q ! r) - int r \<noteq> int (q ! r') - int r' \<and>
        int (q ! r) + int r \<noteq> int (q ! r') + int r')"
proof
  assume p: "placement N k q"
  have "q ! r \<noteq> q ! r' \<and> int (q ! r) - int r \<noteq> int (q ! r') - int r' \<and>
        int (q ! r) + int r \<noteq> int (q ! r') + int r'" if "r < k" "r' < k" "r \<noteq> r'" for r r'
  proof (cases "r' < r")
    case True
    with p that have "q ! r' \<noteq> q ! r \<and> q ! r' + (r - r') \<noteq> q ! r \<and> q ! r + (r - r') \<noteq> q ! r'"
      by (simp add: placement_def)
    with True show ?thesis by linarith
  next
    case False
    with that have lt: "r < r'" by simp
    with p that have "q ! r \<noteq> q ! r' \<and> q ! r + (r' - r) \<noteq> q ! r' \<and> q ! r' + (r' - r) \<noteq> q ! r"
      by (simp add: placement_def)
    with lt show ?thesis by linarith
  qed
  with p show "length q = k \<and> (\<forall>r < k. q ! r < N) \<and>
     (\<forall>r < k. \<forall>r' < k. r \<noteq> r' \<longrightarrow>
        q ! r \<noteq> q ! r' \<and> int (q ! r) - int r \<noteq> int (q ! r') - int r' \<and>
        int (q ! r) + int r \<noteq> int (q ! r') + int r')"
    by (simp add: placement_def)
next
  assume h: "length q = k \<and> (\<forall>r < k. q ! r < N) \<and>
     (\<forall>r < k. \<forall>r' < k. r \<noteq> r' \<longrightarrow>
        q ! r \<noteq> q ! r' \<and> int (q ! r) - int r \<noteq> int (q ! r') - int r' \<and>
        int (q ! r) + int r \<noteq> int (q ! r') + int r')"
  have "q ! r' \<noteq> q ! r \<and> q ! r' + (r - r') \<noteq> q ! r \<and> q ! r + (r - r') \<noteq> q ! r'"
    if "r < k" "r' < r" for r r'
  proof -
    from that have "r' < k" "r \<noteq> r'" by simp_all
    with h that(1) have "q ! r \<noteq> q ! r' \<and> int (q ! r) - int r \<noteq> int (q ! r') - int r' \<and>
        int (q ! r) + int r \<noteq> int (q ! r') + int r'" by blast
    with that(2) show ?thesis by linarith
  qed
  with h show "placement N k q" by (simp add: placement_def)
qed

lemma total_of_placement:
  assumes "placement N N q"
  shows "lhs_value (of_placement N q) (vlabels N) = real N"
proof -
  let ?s = "of_placement N q"
  have "lhs_value ?s (vlabels N) =
        sum_list (map (\<lambda>r. sum_list (map (\<lambda>c. value_of ?s (varname r c)) [0..<N])) [0..<N])"
    by (simp add: lhs_value_def vlabels_def sum_list_grid)
  also have "\<dots> = sum_list (map (\<lambda>r. 1) [0..<N])"
  proof (rule arg_cong[where f = sum_list], rule map_cong[OF refl])
    fix r assume "r \<in> set [0..<N]"
    then have r: "r < N" by simp
    have "sum_list (map (\<lambda>c. value_of ?s (varname r c)) [0..<N]) =
          sum_list (map (\<lambda>c. if q ! r = c then 1 else 0) [0..<N])"
      by (rule arg_cong[where f = sum_list], rule map_cong[OF refl])
        (simp add: value_of_placement[OF r])
    also from assms r have "\<dots> = 1"
      by (simp add: sum_indicator placement_def)
    finally show "sum_list (map (\<lambda>c. value_of ?s (varname r c)) [0..<N]) = 1" .
  qed
  also have "\<dots> = real N" by (simp add: sum_list_triv)
  finally show ?thesis .
qed

lemma placement_satisfies:
  assumes "placement N N q"
  shows "satisfies \<lparr>objective = [], constraints = expected_constraints N (int N)\<rparr> (of_placement N q)"
proof -
  let ?s = "of_placement N q"
  note b = binary_of_placement[of N q]
  from assms have p: "\<And>r r'. r < N \<Longrightarrow> r' < N \<Longrightarrow> r \<noteq> r' \<Longrightarrow>
        q ! r \<noteq> q ! r' \<and> int (q ! r) - int r \<noteq> int (q ! r') - int r' \<and>
        int (q ! r) + int r \<noteq> int (q ! r') + int r'"
    by (simp add: placement_iff)
  have t: "holds ?s (total_constraint N (int N))"
    by (simp add: holds_def total_simps total_of_placement[OF assms])
  have c: "holds ?s (col_constraint N c)" if "c < N" for c
  proof -
    have "lhs_value ?s (map (\<lambda>r. varname r c) [0..<N]) \<le> 1 \<longleftrightarrow>
          (\<forall>x \<in> set [0..<N]. \<forall>y \<in> set [0..<N].
             value_of ?s (varname x c) = 1 \<and> value_of ?s (varname y c) = 1 \<longrightarrow> x = y)"
      by (rule lhs_le_1_iff[OF b distinct_upt]) (simp add: varname_in_vlabels that)
    moreover have "\<forall>x \<in> set [0..<N]. \<forall>y \<in> set [0..<N].
             value_of ?s (varname x c) = 1 \<and> value_of ?s (varname y c) = 1 \<longrightarrow> x = y"
    proof (intro ballI impI)
      fix x y assume xy: "x \<in> set [0..<N]" "y \<in> set [0..<N]"
        and o: "value_of ?s (varname x c) = 1 \<and> value_of ?s (varname y c) = 1"
      then have "q ! x = c" "q ! y = c"
        using that by (simp_all add: value_of_placement split: if_splits)
      with p[of x y] xy show "x = y" by auto
    qed
    ultimately have "lhs_value ?s (map (\<lambda>r. varname r c) [0..<N]) \<le> 1" by (rule iffD2)
    then show ?thesis by (simp add: holds_def col_simps)
  qed
  have r: "holds ?s (row_constraint N r)" if "r < N" for r
  proof -
    have "lhs_value ?s (map (\<lambda>c. varname r c) [0..<N]) \<le> 1 \<longleftrightarrow>
          (\<forall>x \<in> set [0..<N]. \<forall>y \<in> set [0..<N].
             value_of ?s (varname r x) = 1 \<and> value_of ?s (varname r y) = 1 \<longrightarrow> x = y)"
      by (rule lhs_le_1_iff[OF b distinct_upt]) (simp add: varname_in_vlabels that)
    moreover have "\<forall>x \<in> set [0..<N]. \<forall>y \<in> set [0..<N].
             value_of ?s (varname r x) = 1 \<and> value_of ?s (varname r y) = 1 \<longrightarrow> x = y"
    proof (intro ballI impI)
      fix x y assume xy: "x \<in> set [0..<N]" "y \<in> set [0..<N]"
        and o: "value_of ?s (varname r x) = 1 \<and> value_of ?s (varname r y) = 1"
      then have "q ! r = x" "q ! r = y"
        using that by (simp_all add: value_of_placement split: if_splits)
      then show "x = y" by simp
    qed
    ultimately have "lhs_value ?s (map (\<lambda>c. varname r c) [0..<N]) \<le> 1" by (rule iffD2)
    then show ?thesis by (simp add: holds_def row_simps)
  qed
  have d: "holds ?s (diag_constraint N x)" if "x \<in> set (enumerate 0 (diags N))" for x
  proof -
    obtain i g where x: "x = (i, g)" by (cases x)
    with that have i: "i < length (diags N)" "g = diags N ! i"
      by (simp_all add: in_set_enumerate_eq)
    have N2: "2 \<le> N"
    proof (rule ccontr)
      assume "\<not> 2 \<le> N"
      then have "N = 0 \<or> N = 1" by linarith
      with i(1) show False by (auto simp: diags_1 diags_def py_range_def)
    qed
    then have N: "0 < N" by simp
    have g: "g \<in> set (diags N)" using i by simp
    have mem: "\<And>v. v \<in> set g \<Longrightarrow> v < N * N \<and> on_diag N i (v div N) (v mod N)"
      using diags_nth_set[OF N2 i(1)] i(2) by simp
    have inl: "\<And>v. v \<in> set g \<Longrightarrow> varname (v div N) (v mod N) \<in> set (vlabels N)"
    proof -
      fix v assume "v \<in> set g"
      with mem N have "v div N < N" "v mod N < N" by (simp_all add: less_mult_imp_div_less)
      then show "varname (v div N) (v mod N) \<in> set (vlabels N)" by (rule varname_in_vlabels)
    qed
    have e: "lhs_value ?s (map (\<lambda>v. varname (v div N) (v mod N)) g) \<le> 1 \<longleftrightarrow>
          (\<forall>v \<in> set g. \<forall>w \<in> set g.
             value_of ?s (varname (v div N) (v mod N)) = 1 \<and>
             value_of ?s (varname (w div N) (w mod N)) = 1 \<longrightarrow> v = w)"
      by (rule lhs_le_1_iff[OF b distinct_diags[OF N g]]) (rule inl)
    have "\<forall>v \<in> set g. \<forall>w \<in> set g.
             value_of ?s (varname (v div N) (v mod N)) = 1 \<and>
             value_of ?s (varname (w div N) (w mod N)) = 1 \<longrightarrow> v = w"
    proof (intro ballI impI)
      fix v w assume v: "v \<in> set g" and w: "w \<in> set g"
        and o: "value_of ?s (varname (v div N) (v mod N)) = 1 \<and> value_of ?s (varname (w div N) (w mod N)) = 1"
      from mem[OF v] mem[OF w] N have rc: "v div N < N" "v mod N < N" "w div N < N" "w mod N < N"
        by (simp_all add: less_mult_imp_div_less)
      with o have q: "q ! (v div N) = v mod N" "q ! (w div N) = w mod N"
        by (simp_all add: value_of_placement split: if_splits)
      have "v div N = w div N"
      proof (rule ccontr)
        assume ne: "v div N \<noteq> w div N"
        from p[OF rc(1) rc(3) ne] q
        have a: "int (v mod N) - int (v div N) \<noteq> int (w mod N) - int (w div N)"
          "int (v mod N) + int (v div N) \<noteq> int (w mod N) + int (w div N)" by simp_all
        from mem[OF v] mem[OF w] have "on_diag N i (v div N) (v mod N)" "on_diag N i (w div N) (w mod N)"
          by simp_all
        with a show False by (auto simp: on_diag_def split: if_splits)
      qed
      with q have "v mod N = w mod N" by simp
      with \<open>v div N = w div N\<close> show "v = w" by (metis div_mult_mod_eq)
    qed
    with e have "lhs_value ?s (map (\<lambda>v. varname (v div N) (v mod N)) g) \<le> 1"
      by (rule iffD2)
    then show ?thesis by (simp add: holds_def diag_constraint_def x)
  qed
  from t c r d show ?thesis
    by (auto simp: satisfies_def list_all_iff expected_constraints_def)
qed

lemma lhs_count:
  assumes "binary_assignment N s" "\<And>v. v \<in> set vs \<Longrightarrow> g v \<in> set (vlabels N)"
  shows "lhs_value s (map g vs) = real (length (filter (\<lambda>v. value_of s (g v) = 1) vs))"
proof -
  have "lhs_value s (map g vs) = sum_list (map (\<lambda>v. value_of s (g v)) vs)"
    by (simp add: lhs_value_def comp_def)
  also have "\<dots> = sum_list (map (\<lambda>v. if value_of s (g v) = 1 then 1 else 0) vs)"
    by (rule arg_cong[where f = sum_list], rule map_cong[OF refl])
      (rule binary_indicator[OF assms(1) assms(2)])
  also have "\<dots> = real (length (filter (\<lambda>v. value_of s (g v) = 1) vs))"
    by (simp only: length_filter_sum)
  finally show ?thesis .
qed

lemma all_ones:
  "(\<And>x. x \<in> set xs \<Longrightarrow> g x \<le> (1::real)) \<Longrightarrow> sum_list (map g xs) = real (length xs) \<Longrightarrow>
   x \<in> set xs \<Longrightarrow> g x = 1"
proof (induction xs)
  case Nil
  then show ?case by simp
next
  case (Cons y ys)
  have y: "g y \<le> 1" by (rule Cons.prems(1)) simp
  have s: "sum_list (map g ys) \<le> real (length ys)"
    by (rule sum_list_le_length) (simp add: Cons.prems(1))
  from Cons.prems(2) have "g y + sum_list (map g ys) = 1 + real (length ys)" by simp
  with y s have e: "g y = 1" "sum_list (map g ys) = real (length ys)" by linarith+
  show ?case
  proof (cases "x = y")
    case True
    with e show ?thesis by simp
  next
    case False
    with Cons.prems(3) have "x \<in> set ys" by simp
    with Cons.IH[OF _ e(2)] Cons.prems(1) show ?thesis by simp
  qed
qed

lemma row_sums_total:
  "lhs_value s (vlabels N) =
   sum_list (map (\<lambda>r. lhs_value s (map (\<lambda>c. varname r c) [0..<N])) [0..<N])"
  by (simp add: lhs_value_def vlabels_def sum_list_grid comp_def)

lemma queen_in_every_row:
  assumes "binary_assignment N s"
    and "lhs_value s (vlabels N) = real N"
    and "\<And>r. r < N \<Longrightarrow> lhs_value s (map (\<lambda>c. varname r c) [0..<N]) \<le> 1"
    and "r < N"
  shows "\<exists>c < N. value_of s (varname r c) = 1"
proof -
  have "lhs_value s (map (\<lambda>c. varname r c) [0..<N]) = 1"
  proof (rule all_ones[where xs = "[0..<N]" and g = "\<lambda>r. lhs_value s (map (\<lambda>c. varname r c) [0..<N])"])
    show "sum_list (map (\<lambda>r. lhs_value s (map (\<lambda>c. varname r c) [0..<N])) [0..<N]) = real (length [0..<N])"
      using assms(2) by (simp add: row_sums_total)
  qed (use assms(3,4) in simp_all)
  moreover have "lhs_value s (map (\<lambda>c. varname r c) [0..<N]) =
      real (length (filter (\<lambda>c. value_of s (varname r c) = 1) [0..<N]))"
    by (rule lhs_count[OF assms(1)]) (simp add: varname_in_vlabels assms(4))
  ultimately have "filter (\<lambda>c. value_of s (varname r c) = 1) [0..<N] \<noteq> []" by auto
  then obtain c where "c \<in> set (filter (\<lambda>c. value_of s (varname r c) = 1) [0..<N])"
    by (cases "filter (\<lambda>c. value_of s (varname r c) = 1) [0..<N]") auto
  then show ?thesis by auto
qed

lemma binary_Some:
  assumes "binary_assignment N s" "x \<in> set (vlabels N)"
  shows "s x = Some (value_of s x)"
  using assms by (auto simp: binary_assignment_def list_all_iff value_of_def)

lemma diag_holds_unique:
  assumes "2 \<le> N" "binary_assignment N s" "i < length (diags N)"
    and "holds s (diag_constraint N (i, diags N ! i))"
    and "r < N" "c < N" "r' < N" "c' < N"
    and "on_diag N i r c" "on_diag N i r' c'"
    and "value_of s (varname r c) = 1" "value_of s (varname r' c') = 1"
  shows "r = r' \<and> c = c'"
proof -
  let ?g = "diags N ! i"
  from assms(1) have N: "0 < N" by simp
  have g: "?g \<in> set (diags N)" using assms(3) by simp
  have inl: "\<And>v. v \<in> set ?g \<Longrightarrow> varname (v div N) (v mod N) \<in> set (vlabels N)"
  proof -
    fix v assume "v \<in> set ?g"
    with diags_bound[OF N g] N have "v div N < N" "v mod N < N"
      by (simp_all add: less_mult_imp_div_less)
    then show "varname (v div N) (v mod N) \<in> set (vlabels N)" by (rule varname_in_vlabels)
  qed
  have e: "lhs_value s (map (\<lambda>v. varname (v div N) (v mod N)) ?g) \<le> 1 \<longleftrightarrow>
          (\<forall>v \<in> set ?g. \<forall>w \<in> set ?g.
             value_of s (varname (v div N) (v mod N)) = 1 \<and>
             value_of s (varname (w div N) (w mod N)) = 1 \<longrightarrow> v = w)"
    by (rule lhs_le_1_iff[OF assms(2) distinct_diags[OF N g]]) (rule inl)
  from assms(4) have "lhs_value s (map (\<lambda>v. varname (v div N) (v mod N)) ?g) \<le> 1"
    by (simp add: holds_def diag_constraint_def)
  with e have u: "\<forall>v \<in> set ?g. \<forall>w \<in> set ?g.
             value_of s (varname (v div N) (v mod N)) = 1 \<and>
             value_of s (varname (w div N) (w mod N)) = 1 \<longrightarrow> v = w"
    by (rule iffD1)
  have dm: "(r * N + c) div N = r" "(r * N + c) mod N = c"
    "(r' * N + c') div N = r'" "(r' * N + c') mod N = c'"
    using assms(6,8) by simp_all
  have "r * N + c \<in> set ?g" "r' * N + c' \<in> set ?g"
    using diags_nth_set[OF assms(1,3)] assms(5-10) grid_index_less dm by simp_all
  with u assms(11,12) dm have "r * N + c = r' * N + c'" by simp
  with dm show ?thesis by metis
qed

lemma satisfying_is_placement:
  assumes "0 < N" "binary_assignment N s"
    and "satisfies \<lparr>objective = [], constraints = expected_constraints N (int N)\<rparr> s"
  shows "\<exists>q. placement N N q \<and> s = of_placement N q"
proof -
  from assms(3) have H: "\<And>x. x \<in> set (expected_constraints N (int N)) \<Longrightarrow> holds s x"
    by (simp add: satisfies_def list_all_iff)
  have "holds s (total_constraint N (int N))"
    by (rule H) (simp add: expected_constraints_def)
  then have ht: "lhs_value s (vlabels N) = real N"
    by (simp add: holds_def total_simps)
  have hc: "lhs_value s (map (\<lambda>r. varname r c) [0..<N]) \<le> 1" if "c < N" for c
  proof -
    have "holds s (col_constraint N c)"
      by (rule H) (simp add: expected_constraints_def that)
    then show ?thesis by (simp add: holds_def col_simps)
  qed
  have hr: "lhs_value s (map (\<lambda>c. varname r c) [0..<N]) \<le> 1" if "r < N" for r
  proof -
    have "holds s (row_constraint N r)"
      by (rule H) (simp add: expected_constraints_def that)
    then show ?thesis by (simp add: holds_def row_simps)
  qed
  have hd: "holds s (diag_constraint N (i, diags N ! i))" if "i < length (diags N)" for i
  proof (rule H)
    from that have "(i, diags N ! i) \<in> set (enumerate 0 (diags N))"
      by (simp add: in_set_enumerate_eq)
    then show "diag_constraint N (i, diags N ! i) \<in> set (expected_constraints N (int N))"
      by (simp add: expected_constraints_def)
  qed
  have ur: "c = c'" if "r < N" "c < N" "c' < N"
    "value_of s (varname r c) = 1" "value_of s (varname r c') = 1" for r c c'
  proof -
    have "lhs_value s (map (\<lambda>c. varname r c) [0..<N]) \<le> 1 \<longleftrightarrow>
          (\<forall>x \<in> set [0..<N]. \<forall>y \<in> set [0..<N].
             value_of s (varname r x) = 1 \<and> value_of s (varname r y) = 1 \<longrightarrow> x = y)"
      by (rule lhs_le_1_iff[OF assms(2) distinct_upt]) (simp add: varname_in_vlabels that(1))
    with hr[OF that(1)] have "\<forall>x \<in> set [0..<N]. \<forall>y \<in> set [0..<N].
             value_of s (varname r x) = 1 \<and> value_of s (varname r y) = 1 \<longrightarrow> x = y"
      by (rule iffD1[rotated])
    with that show ?thesis by simp
  qed
  have uc: "r = r'" if "c < N" "r < N" "r' < N"
    "value_of s (varname r c) = 1" "value_of s (varname r' c) = 1" for c r r'
  proof -
    have "lhs_value s (map (\<lambda>r. varname r c) [0..<N]) \<le> 1 \<longleftrightarrow>
          (\<forall>x \<in> set [0..<N]. \<forall>y \<in> set [0..<N].
             value_of s (varname x c) = 1 \<and> value_of s (varname y c) = 1 \<longrightarrow> x = y)"
      by (rule lhs_le_1_iff[OF assms(2) distinct_upt]) (simp add: varname_in_vlabels that(1))
    with hc[OF that(1)] have "\<forall>x \<in> set [0..<N]. \<forall>y \<in> set [0..<N].
             value_of s (varname x c) = 1 \<and> value_of s (varname y c) = 1 \<longrightarrow> x = y"
      by (rule iffD1[rotated])
    with that show ?thesis by simp
  qed
  have "\<forall>r. \<exists>c. r < N \<longrightarrow> c < N \<and> value_of s (varname r c) = 1"
    using queen_in_every_row[OF assms(2) ht hr] by blast
  then obtain qf where qf: "\<And>r. r < N \<Longrightarrow> qf r < N \<and> value_of s (varname r (qf r)) = 1"
    by metis
  define q where "q = map qf [0..<N]"
  have qn: "\<And>r. r < N \<Longrightarrow> q ! r = qf r" by (simp add: q_def)
  have lq: "length q = N" by (simp add: q_def)
  have safe: "q ! r \<noteq> q ! r' \<and> int (q ! r) - int r \<noteq> int (q ! r') - int r' \<and>
        int (q ! r) + int r \<noteq> int (q ! r') + int r'"
    if r: "r < N" "r' < N" "r \<noteq> r'" for r r'
  proof -
    from r have N2: "2 \<le> N" by linarith
    note a = qf[OF r(1)] and b = qf[OF r(2)]
    have ld: "length (diags N) = 2 * (2 * N - 3)" by (rule length_diags[OF N2])
    have 1: "qf r \<noteq> qf r'"
    proof
      assume "qf r = qf r'"
      with uc[of "qf r" r r'] a b r show False by simp
    qed
    have 2: "int (qf r) - int r \<noteq> int (qf r') - int r'"
    proof
      assume e: "int (qf r) - int r = int (qf r') - int r'"
      define i where "i = nat (int (qf r) - int r + (int N - 2))"
      from e a b r have k: "- (int N - 2) \<le> int (qf r) - int r" "int (qf r) - int r \<le> int N - 2"
        by linarith+
      then have i: "i < 2 * N - 3" "int i - (int N - 2) = int (qf r) - int r"
        unfolding i_def using N2 by linarith+
      then have il: "i < length (diags N)" using ld by simp
      from i have o: "on_diag N i r (qf r)" by (simp add: on_diag_def)
      from i e have o': "on_diag N i r' (qf r')" by (simp add: on_diag_def)
      from diag_holds_unique[OF N2 assms(2) il hd[OF il] r(1) _ r(2) _ o o'] a b r(3)
      show False by simp
    qed
    have 3: "int (qf r) + int r \<noteq> int (qf r') + int r'"
    proof
      assume e: "int (qf r) + int r = int (qf r') + int r'"
      define j where "j = nat (2 * int N - 3 - (int (qf r) + int r))"
      define i where "i = 2 * N - 3 + j"
      from e a b r have k: "1 \<le> int (qf r) + int r" "int (qf r) + int r \<le> 2 * int N - 3"
        by linarith+
      then have j: "j < 2 * N - 3" "int j = 2 * int N - 3 - (int (qf r) + int r)"
        unfolding j_def using N2 by linarith+
      then have i: "\<not> i < 2 * N - 3" "i - (2 * N - 3) = j" "i < 2 * (2 * N - 3)"
        unfolding i_def by simp_all
      then have il: "i < length (diags N)" using ld by simp
      from i j have o: "on_diag N i r (qf r)" by (simp add: on_diag_def)
      from i j e have o': "on_diag N i r' (qf r')" by (simp add: on_diag_def)
      from diag_holds_unique[OF N2 assms(2) il hd[OF il] r(1) _ r(2) _ o o'] a b r(3)
      show False by simp
    qed
    from 1 2 3 r show ?thesis by (simp add: qn)
  qed
  have p: "placement N N q"
    unfolding placement_iff using lq qf safe by (simp add: qn)
  have "s x = of_placement N q x" for x
  proof (cases "x \<in> set (vlabels N)")
    case True
    then obtain r c where rc: "r < N" "c < N" "x = varname r c" by (auto simp: in_vlabels_iff)
    have "value_of s (varname r c) = (if q ! r = c then 1 else 0)"
    proof (cases "q ! r = c")
      case True
      with qf[OF rc(1)] rc(1) show ?thesis by (simp add: qn)
    next
      case False
      have "value_of s (varname r c) \<noteq> 1"
      proof
        assume "value_of s (varname r c) = 1"
        with ur[OF rc(1) _ rc(2), of "qf r"] qf[OF rc(1)] have "qf r = c" by simp
        with False rc(1) show False by (simp add: qn)
      qed
      with binary_value[OF assms(2) True] rc(3) False show ?thesis by auto
    qed
    with binary_Some[OF assms(2) True] rc show ?thesis
      by (simp add: of_placement_value)
  next
    case False
    with assms(2) have "s x = None" by (auto simp: binary_assignment_def)
    moreover from False of_placement_dom[of N q] have "of_placement N q x = None" by auto
    ultimately show ?thesis by simp
  qed
  then have "s = of_placement N q" by (rule ext)
  with p show ?thesis by blast
qed

lemma of_placement_inj:
  assumes "placement N N q" "placement N N q'" "of_placement N q = of_placement N q'"
  shows "q = q'"
proof (rule nth_equalityI)
  from assms show "length q = length q'" by (simp add: placement_def)
next
  fix r assume "r < length q"
  with assms(1) have r: "r < N" "q ! r < N" by (simp_all add: placement_def)
  from of_placement_value[OF r, of q] assms(3) have "of_placement N q' (varname r (q ! r)) = Some 1"
    by simp
  with of_placement_value[OF r, of q'] show "q ! r = q' ! r"
    by (simp split: if_splits)
qed

lemma feasible_set:
  assumes "0 < N"
  shows "{s. binary_assignment N s \<and>
             satisfies \<lparr>objective = [], constraints = expected_constraints N (int N)\<rparr> s} =
         of_placement N ` set (queens N N)"
proof (intro set_eqI iffI)
  fix s assume "s \<in> {s. binary_assignment N s \<and>
             satisfies \<lparr>objective = [], constraints = expected_constraints N (int N)\<rparr> s}"
  then have "binary_assignment N s"
    "satisfies \<lparr>objective = [], constraints = expected_constraints N (int N)\<rparr> s" by simp_all
  from satisfying_is_placement[OF assms this] obtain q where "placement N N q" "s = of_placement N q"
    by blast
  then show "s \<in> of_placement N ` set (queens N N)" by (simp add: queens_set)
next
  fix s assume "s \<in> of_placement N ` set (queens N N)"
  then obtain q where "placement N N q" "s = of_placement N q" by (auto simp: queens_set)
  then show "s \<in> {s. binary_assignment N s \<and>
             satisfies \<lparr>objective = [], constraints = expected_constraints N (int N)\<rparr> s}"
    by (simp add: binary_of_placement placement_satisfies)
qed

lemma feasible_card:
  assumes "0 < N"
  shows "card {s. binary_assignment N s \<and>
             satisfies \<lparr>objective = [], constraints = expected_constraints N (int N)\<rparr> s} =
         length (remdups (queens N N))"
proof -
  have "inj_on (of_placement N) (set (queens N N))"
    by (rule inj_onI) (simp add: queens_set of_placement_inj)
  then have "card (of_placement N ` set (queens N N)) = card (set (queens N N))"
    by (rule card_image)
  then show ?thesis by (simp only: feasible_set[OF assms] card_set)
qed

lemma queens_8: "length (remdups (queens 8 8)) = 92"
  by code_simp

section \<open>The claims\<close>



text \<open>
  C2. For every \<open>N \<ge> 2\<close>: every group the diagonal enumerator returns has at least
  two members; there are \<open>2 * (2 * N - 3)\<close> groups; the members of the group number
  \<open>i\<close> are exactly the squares (numbered row by row) on the diagonal of the board that
  the group stands for, \<open>col - row\<close> constant for the first half and \<open>row + col\<close>
  constant for the second half; and no square is in more than two groups.
\<close>

theorem C2_diagonal_groups:
  assumes "2 \<le> N"
  shows "(\<forall>g \<in> set (diags N). 2 \<le> length g) \<and>
         length (diags N) = 2 * (2 * N - 3) \<and>
         (\<forall>i < length (diags N). \<forall>v.
            (v \<in> set (diags N ! i)) = (v < N * N \<and> on_diag N i (v div N) (v mod N))) \<and>
         (\<forall>i < length (diags N). \<forall>r < N. \<forall>c < N.
            (r * N + c \<in> set (diags N ! i)) = on_diag N i r c) \<and>
         (\<forall>v. length (filter (\<lambda>g. v \<in> set g) (diags N)) \<le> 2)"
proof -
  from assms have N: "0 < N" by simp
  have a: "\<forall>g \<in> set (diags N). 2 \<le> length g"
    using diags_length_ge2[OF N] by blast
  have c: "\<forall>i < length (diags N). \<forall>v.
            (v \<in> set (diags N ! i)) = (v < N * N \<and> on_diag N i (v div N) (v mod N))"
    using diags_nth_set[OF assms] by simp
  have d: "\<forall>i < length (diags N). \<forall>r < N. \<forall>c < N.
            (r * N + c \<in> set (diags N ! i)) = on_diag N i r c"
  proof (intro allI impI)
    fix i r c assume i: "i < length (diags N)" and rc: "r < N" "c < N"
    from rc have "(r * N + c) div N = r" "(r * N + c) mod N = c" by simp_all
    with diags_nth_set[OF assms i] grid_index_less[OF rc]
    show "(r * N + c \<in> set (diags N ! i)) = on_diag N i r c" by simp
  qed
  from a c d length_diags[OF assms] diags_member_count[OF N] show ?thesis by blast
qed

theorem C2_diagonal_groups_witness:
  "(2::nat) \<le> 3 \<and> length (diags 3) = 6 \<and> list_all (\<lambda>g. 2 \<le> length g) (diags 3) \<and>
   4 \<in> set (diags 3 ! 1) \<and> 4 \<in> set (diags 3 ! 4) \<and> on_diag 3 1 1 1 \<and> on_diag 3 4 1 1 \<and>
   length (filter (\<lambda>g. 4 \<in> set g) (diags 3)) = 2 \<and>
   length (filter (\<lambda>g. 2 \<in> set g) (diags 3)) = 1"
  using C2_diagonal_groups[of 3] by (simp add: diags_3 on_diag_def)

text \<open>
  C3. For \<open>N = 8\<close> and \<open>NQ = 8\<close> the model is built and is satisfiable, and exactly 92
  assignments of 0 and 1 to the 64 square variables satisfy its constraints (the total,
  the rows, the columns and the diagonal groups).
\<close>

theorem C3_eight_queens:
  "\<exists>m. build_cqm 8 8 = Inr m \<and>
       (\<exists>s. binary_assignment 8 s \<and> satisfies m s) \<and>
       card {s. binary_assignment 8 s \<and> satisfies m s} = 92"
proof -
  let ?m = "\<lparr>objective = [], constraints = expected_constraints 8 8\<rparr>"
  have m: "build_cqm 8 8 = Inr ?m"
    by (rule build_cqm_eq) simp
  have c: "card {s. binary_assignment 8 s \<and> satisfies ?m s} = 92"
    using feasible_card[of 8] by (simp add: queens_8)
  have "{s. binary_assignment 8 s \<and> satisfies ?m s} \<noteq> {}"
  proof
    assume "{s. binary_assignment 8 s \<and> satisfies ?m s} = {}"
    with c show False by simp
  qed
  then have "\<exists>s. binary_assignment 8 s \<and> satisfies ?m s" by blast
  with m c show ?thesis by blast
qed





text \<open>
  C6. For every sample that gives a value to every square, the board printed for it is
  the header line \<open>Result i+1\<close>, then the \<open>N\<close> rows in order, each row the squares of
  its \<open>N\<close> columns in order in the format \<open>|.X.\<close> and a closing \<open>|\<close> with a newline,
  then the closing line. \<open>X\<close> is \<open>W\<close> exactly when the value of the variable
  \<open>square_r{r}_c{c}\<close> is greater than \<open>0\<close>, and \<open>.\<close> otherwise.
\<close>

theorem C6_board_rendering:
  assumes "full_sample N s"
  shows "print_result N out (i, s) =
     Inr (out @ ''Result '' @ str (i + 1) @ ''    ====================='' @ [NL] @
          concat (map (\<lambda>r.
             concat (map (\<lambda>c. ''|.'' @
                               [if 0 < value_of s (varname r c) then CHR ''W'' else CHR ''.''] @
                               ''.'')
                         [0..<N]) @ ''|'' @ [NL]) [0..<N]) @
          ''================================='' @ [NL])"
proof -
  have "row_text N s = (\<lambda>r.
             concat (map (\<lambda>c. ''|.'' @
                               [if 0 < value_of s (varname r c) then CHR ''W'' else CHR ''.''] @
                               ''.'')
                         [0..<N]) @ ''|'' @ [NL])"
    by (rule ext) (simp add: row_text_def marker_def)
  then show ?thesis
    by (simp add: print_result_eq[OF assms] board_text_def)
qed

theorem C6_board_rendering_witness:
  "full_sample 2 [''square_r0_c0'' \<mapsto> 0, ''square_r0_c1'' \<mapsto> 1,
                  ''square_r1_c0'' \<mapsto> 1, ''square_r1_c1'' \<mapsto> 0] \<and>
   print_result 2 [] (0, [''square_r0_c0'' \<mapsto> 0, ''square_r0_c1'' \<mapsto> 1,
                          ''square_r1_c0'' \<mapsto> 1, ''square_r1_c1'' \<mapsto> 0]) =
     Inr (''Result 1    ====================='' @ [NL] @
          ''|...|.W.|'' @ [NL] @
          ''|.W.|...|'' @ [NL] @
          ''================================='' @ [NL])"
proof -
  let ?s = "[''square_r0_c0'' \<mapsto> 0::real, ''square_r0_c1'' \<mapsto> 1,
             ''square_r1_c0'' \<mapsto> 1, ''square_r1_c1'' \<mapsto> 0]"
  have v: "vlabels 2 = [''square_r0_c0'', ''square_r0_c1'', ''square_r1_c0'', ''square_r1_c1'']"
    by (simp add: vlabels_def varname_small digit_def upt_conv_Cons)
  have f: "full_sample 2 ?s"
    by (simp add: full_sample_def v)
  have u: "[0..<2] = [0, 1]" by (simp add: upt_conv_Cons)
  from C6_board_rendering[OF f, of "[]" 0] f show ?thesis
    by (simp add: u value_of_def varname_small str_small digit_def)
qed

text \<open>
  C7. Let \<open>s\<close> assign 0 or 1 to every square variable and satisfy the model built for
  \<open>N \<ge> 1\<close> and \<open>NQ\<close> (a valid placement). Then the board printed for \<open>s\<close> is the
  header, the rows \<open>row_text N s r\<close> for \<open>r = 0, \<dots>, N - 1\<close> and the closing line; it
  has exactly \<open>NQ\<close> queen markers \<open>W\<close>; every printed row has at most one; and in
  every column (the marker of column \<open>c\<close> is the character \<open>4 * c + 2\<close> of a row) at
  most one row has one.
\<close>

theorem C7_valid_solution_rendering:
  assumes "1 \<le> N" "build_cqm N NQ = Inr m" "binary_assignment N s" "satisfies m s"
  shows "\<exists>txt. print_result N [] (i, s) = Inr txt \<and>
           txt = ''Result '' @ str (i + 1) @ ''    ====================='' @ [NL] @
                 concat (map (row_text N s) [0..<N]) @
                 ''================================='' @ [NL] \<and>
           int (count_list txt CHR ''W'') = NQ \<and>
           (\<forall>r < N. count_list (row_text N s r) CHR ''W'' \<le> 1) \<and>
           (\<forall>c < N. length (filter (\<lambda>r. row_text N s r ! (4 * c + 2) = CHR ''W'') [0..<N]) \<le> 1)"
proof -
  from assms(1) have N: "0 < N" by simp
  note h = satisfies_expected[OF N assms(2,4)]
  have p: "print_result N [] (i, s) = Inr (board_text N i s)"
    using print_result_eq[OF binary_full[OF assms(3)], of "[]" i] by simp
  have "real (count_list (board_text N i s) CHR ''W'') = lhs_value s (vlabels N)"
    by (simp only: board_text_count board_count[OF assms(3)])
  also from h(1) have "\<dots> = of_int NQ"
    by (simp add: holds_def total_simps)
  finally have "real_of_int (int (count_list (board_text N i s) CHR ''W'')) = of_int NQ"
    by simp
  then have t: "int (count_list (board_text N i s) CHR ''W'') = NQ"
    by (simp only: of_int_eq_iff)
  have r: "\<forall>r < N. count_list (row_text N s r) CHR ''W'' \<le> 1"
  proof (intro allI impI)
    fix r assume r: "r < N"
    from h(3)[OF r] have "lhs_value s (lhs (row_constraint N r)) \<le> 1"
      by (simp add: holds_def row_simps)
    with row_text_count[OF assms(3) r] have "real (count_list (row_text N s r) CHR ''W'') \<le> 1"
      by simp
    then show "count_list (row_text N s r) CHR ''W'' \<le> 1" by simp
  qed
  have c: "\<forall>c < N. length (filter (\<lambda>r. row_text N s r ! (4 * c + 2) = CHR ''W'') [0..<N]) \<le> 1"
  proof (intro allI impI)
    fix c assume c: "c < N"
    from h(2)[OF c] have "lhs_value s (lhs (col_constraint N c)) \<le> 1"
      by (simp add: holds_def col_simps)
    with col_count[OF assms(3) c]
    have "real (length (filter (\<lambda>r. row_text N s r ! (4 * c + 2) = CHR ''W'') [0..<N])) \<le> 1"
      by simp
    then show "length (filter (\<lambda>r. row_text N s r ! (4 * c + 2) = CHR ''W'') [0..<N]) \<le> 1"
      by simp
  qed
  from p t r c show ?thesis
    by (simp add: board_text_def)
qed

theorem C7_valid_solution_rendering_witness:
  "(1::nat) \<le> 2 \<and>
   build_cqm 2 1 = Inr \<lparr>objective = [], constraints = expected_constraints 2 1\<rparr> \<and>
   binary_assignment 2 [''square_r0_c0'' \<mapsto> 0, ''square_r0_c1'' \<mapsto> 1,
                        ''square_r1_c0'' \<mapsto> 0, ''square_r1_c1'' \<mapsto> 0] \<and>
   satisfies \<lparr>objective = [], constraints = expected_constraints 2 1\<rparr>
             [''square_r0_c0'' \<mapsto> 0, ''square_r0_c1'' \<mapsto> 1,
              ''square_r1_c0'' \<mapsto> 0, ''square_r1_c1'' \<mapsto> 0] \<and>
   (\<exists>txt. print_result 2 [] (0, [''square_r0_c0'' \<mapsto> 0, ''square_r0_c1'' \<mapsto> 1,
                                    ''square_r1_c0'' \<mapsto> 0, ''square_r1_c1'' \<mapsto> 0]) = Inr txt \<and>
          int (count_list txt CHR ''W'') = 1)"
proof -
  let ?s = "[''square_r0_c0'' \<mapsto> 0::real, ''square_r0_c1'' \<mapsto> 1,
             ''square_r1_c0'' \<mapsto> 0, ''square_r1_c1'' \<mapsto> 0]"
  let ?m = "\<lparr>objective = [], constraints = expected_constraints 2 1\<rparr>"
  have m: "build_cqm 2 1 = Inr ?m"
    by (rule build_cqm_eq) simp
  have b: "binary_assignment 2 ?s"
    by (auto simp: binary_assignment_def vlabels_2)
  have u: "[0..<2] = [0, 1]" by (simp add: upt_conv_Cons)
  have s: "satisfies ?m ?s"
    by (simp add: satisfies_def expected_constraints_def diags_2 holds_def total_simps
        col_simps row_simps diag_constraint_def lhs_value_def value_of_def vlabels_2
        varname_small digit_def u)
  from C7_valid_solution_rendering[OF _ m b s, of 0] m b s show ?thesis
    by auto
qed






end
